theory Spec2Isabelle
  imports Complex_Main "HOL-Library.Word"
begin

unbundle bit_operations_syntax

section \<open>KnightSprint++: the game engine of state.js and the strategies of ai.js\<close>

text \<open>
  JavaScript numbers that the engine uses as board coordinates, cell markers, scores,
  player ids and counters are modelled as \<^typ>\<open>int\<close>.  Exceptions are values of a sum type:
  \<open>Inl TypeError\<close> is the \<^verbatim>\<open>TypeError\<close> JavaScript raises when a property of
  \<^verbatim>\<open>undefined\<close> is read or written.
\<close>

subsection \<open>Constants\<close>

datatype error = TypeError | ArrayExtended

datatype phase_t = SETUP | SELECT | RESOLVE | ANIMATE | EVAL | GAMEOVER

datatype player_status = ALIVE | ELIMINATED | WINNER

definition EMPTY :: int where "EMPTY = 0"
definition BLOCKED :: int where "BLOCKED = 1"
definition OBSTACLE :: int where "OBSTACLE = 2"

definition KNIGHT_MOVES :: "(int \<times> int) list" where
  "KNIGHT_MOVES = [(-2,-1),(-2,1),(-1,-2),(-1,2),(1,-2),(1,2),(2,-1),(2,1)]"

subsection \<open>Seeded generator (makeRng)\<close>

text \<open>
  The closure returned by \<^verbatim>\<open>makeRng\<close> owns one variable \<^verbatim>\<open>x\<close>.  The model passes it
  explicitly: \<open>makeRng\<close> gives the initial value of \<^verbatim>\<open>x\<close>, \<open>rng_call\<close> is one call
  of the closure and returns the result together with the new \<^verbatim>\<open>x\<close>.
  \<^verbatim>\<open>seed | 0\<close> is ToInt32, on integers reduction modulo \<open>2^32\<close>; the operators
  \<^verbatim>\<open><<\<close>, \<^verbatim>\<open>>>>\<close> and \<^verbatim>\<open>^\<close> work on the 32 bits of their operands, and
  \<^verbatim>\<open>x >>> 0\<close> reads these 32 bits as an unsigned number.  The quotient of an unsigned
  32-bit number by \<open>2^32\<close> is exact in double precision, so the result is a \<^typ>\<open>real\<close>.
\<close>

definition makeRng :: "int \<Rightarrow> 32 word" where
  "makeRng seed = (let x = (word_of_int seed :: 32 word) in if x = 0 then 1 else x)"

definition rng_next :: "32 word \<Rightarrow> 32 word" where
  "rng_next x0 =
     (let x1 = x0 XOR (push_bit 13 x0);
          x2 = x1 XOR (drop_bit 17 x1);
          x3 = x2 XOR (push_bit 5 x2)
      in x3)"

definition rng_call :: "32 word \<Rightarrow> real \<times> 32 word" where
  "rng_call x = (let x' = rng_next x in (real (unat x') / 4294967296, x'))"

text \<open>The result of the \<open>n\<close>-th call (counted from 0) of the generator made from a seed.\<close>

fun rng_state_after :: "nat \<Rightarrow> 32 word \<Rightarrow> 32 word" where
  "rng_state_after 0 x = x"
| "rng_state_after (Suc n) x = rng_state_after n (snd (rng_call x))"

definition rng_output :: "int \<Rightarrow> nat \<Rightarrow> real" where
  "rng_output seed n = fst (rng_call (rng_state_after n (makeRng seed)))"

text \<open>
  The generator as the specification words it, on natural numbers below \<open>2^32\<close>:
  a left shift is a multiplication modulo \<open>2^32\<close>, an unsigned right shift a division.
\<close>

definition spec_seed_state :: "int \<Rightarrow> nat" where
  "spec_seed_state seed = (if seed mod 4294967296 = 0 then 1 else nat (seed mod 4294967296))"

definition spec_xorshift :: "nat \<Rightarrow> nat" where
  "spec_xorshift s0 =
     (let s1 = s0 XOR ((s0 * 2 ^ 13) mod 2 ^ 32);
          s2 = s1 XOR (s1 div 2 ^ 17);
          s3 = s2 XOR ((s2 * 2 ^ 5) mod 2 ^ 32)
      in s3)"

definition spec_output :: "int \<Rightarrow> nat \<Rightarrow> real" where
  "spec_output seed n = real ((spec_xorshift ^^ (Suc n)) (spec_seed_state seed)) / 2 ^ 32"

subsection \<open>JavaScript arrays\<close>

text \<open>
  Reading an array at an index that is not one of its positions gives \<^verbatim>\<open>undefined\<close>
  (\<open>None\<close>); reading a property of \<^verbatim>\<open>undefined\<close> raises \<^verbatim>\<open>TypeError\<close>.  So
  \<^verbatim>\<open>visited[r][c]\<close> raises when \<open>r\<close> is no row of the grid, and is \<^verbatim>\<open>undefined\<close>
  when \<open>r\<close> is a row and \<open>c\<close> no column of it.
  A write \<^verbatim>\<open>visited[r][c] = v\<close> raises in the first case too.  In the second case
  JavaScript would add the property \<open>c\<close> to the row, which a list cannot express: the model
  marks this outcome \<open>Inl ArrayExtended\<close>.  It is not an exception of the program; every
  theorem below is about runs where it does not occur.
\<close>

type_synonym cell = "int \<times> int"
type_synonym grid = "int list list"

definition js_index :: "'a list \<Rightarrow> int \<Rightarrow> 'a option" where
  "js_index xs i = (if 0 \<le> i \<and> i < int (length xs) then Some (xs ! nat i) else None)"

definition grid_get :: "grid \<Rightarrow> int \<Rightarrow> int \<Rightarrow> error + int option" where
  "grid_get g r c = (case js_index g r of None \<Rightarrow> Inl TypeError | Some rw \<Rightarrow> Inr (js_index rw c))"

definition grid_set :: "grid \<Rightarrow> int \<Rightarrow> int \<Rightarrow> int \<Rightarrow> error + grid" where
  "grid_set g r c v =
     (case js_index g r of
        None \<Rightarrow> Inl TypeError
      | Some rw \<Rightarrow>
          if 0 \<le> c \<and> c < int (length rw) then Inr (g[nat r := rw[nat c := v]])
          else Inl ArrayExtended)"

subsection \<open>Board utilities\<close>

definition inBounds :: "int \<Rightarrow> int \<Rightarrow> int \<Rightarrow> bool" where
  "inBounds r c sz \<longleftrightarrow> r \<ge> 0 \<and> r < sz \<and> c \<ge> 0 \<and> c < sz"

text \<open>
  \<^verbatim>\<open>cellKey(r, c)\<close> is the template string \<^verbatim>\<open>`${r},${c}`\<close>: the decimal numerals of
  the two integers, separated by a comma.
\<close>

definition digit_char :: "nat \<Rightarrow> char" where
  "digit_char d = ''0123456789'' ! d"

function digits :: "nat \<Rightarrow> string" where
  "digits n = (if n < 10 then [digit_char n] else digits (n div 10) @ [digit_char (n mod 10)])"
  by pat_completeness auto
termination
  by (relation "measure (\<lambda>n. n)") auto

declare digits.simps [simp del]

definition int_str :: "int \<Rightarrow> string" where
  "int_str i = (if i < 0 then CHR ''-'' # digits (nat (- i)) else digits (nat i))"

definition cellKey :: "int \<Rightarrow> int \<Rightarrow> string" where
  "cellKey r c = int_str r @ CHR '','' # int_str c"

fun legal_scan :: "(int \<times> int) list \<Rightarrow> int \<Rightarrow> int \<Rightarrow> int \<Rightarrow> grid \<Rightarrow> error + cell list" where
  "legal_scan [] r c sz g = Inr []"
| "legal_scan ((dr, dc) # ds) r c sz g =
     (let nr = r + dr; nc = c + dc in
      if inBounds nr nc sz then
        (case grid_get g nr nc of
           Inl e \<Rightarrow> Inl e
         | Inr v \<Rightarrow>
             (case legal_scan ds r c sz g of
                Inl e \<Rightarrow> Inl e
              | Inr ms \<Rightarrow> Inr (if v = Some EMPTY then (nr, nc) # ms else ms)))
      else legal_scan ds r c sz g)"

definition getLegalMoves :: "int \<Rightarrow> int \<Rightarrow> int \<Rightarrow> grid \<Rightarrow> error + cell list" where
  "getLegalMoves r c sz g = legal_scan KNIGHT_MOVES r c sz g"

definition countMobility :: "int \<Rightarrow> int \<Rightarrow> int \<Rightarrow> grid \<Rightarrow> error + int" where
  "countMobility r c sz g =
     (case getLegalMoves r c sz g of Inl e \<Rightarrow> Inl e | Inr ms \<Rightarrow> Inr (int (length ms)))"

definition isOccupied :: "int \<Rightarrow> bool" where
  "isOccupied v \<longleftrightarrow> v \<noteq> EMPTY"

definition makeGrid :: "int \<Rightarrow> grid" where
  "makeGrid sz = replicate (nat sz) (replicate (nat sz) EMPTY)"

subsection \<open>Game state\<close>

text \<open>
  The palette of a player is presentation data and is left out.  \<open>pid\<close> is the field
  \<^verbatim>\<open>id\<close>.  \<open>rng\<close> is the variable \<^verbatim>\<open>x\<close> of the generator closure that the state holds.
\<close>

record player =
  pid :: int
  isHuman :: bool
  status :: player_status
  row :: int
  col :: int
  score :: int
  aiStrategy :: "string option"

record rules_t =
  timerSeconds :: int
  obstacleCount :: int
  fogOfWar :: bool
  shrinkBoard :: bool

datatype event =
    Move int cell cell
  | Collision "int list" cell
  | Blocked int cell
  | Elimination int int
  | Winner int

type_synonym move_record = "int \<times> cell \<times> cell"
type_synonym turn_record = "int \<times> move_record list"

record state =
  boardSize :: int
  seed :: int
  turn :: int
  phase :: phase_t
  players :: "player list"
  visited :: grid
  pendingMoves :: "int \<rightharpoonup> cell"
  ruleset :: rules_t
  rng :: "32 word"
  obstacles :: "cell list"
  history :: "turn_record list"

definition cloneState :: "state \<Rightarrow> state" where
  "cloneState s =
     \<lparr> boardSize = boardSize s, seed = seed s, turn = turn s, phase = phase s,
       players = map (\<lambda>p. p) (players s),
       visited = map (\<lambda>rw. rw) (visited s),
       pendingMoves = pendingMoves s,
       ruleset = ruleset s,
       rng = rng s,
       obstacles = map (\<lambda>ob. ob) (obstacles s),
       history = history s \<rparr>"

subsection \<open>Move submission and resolution\<close>

definition submitMove :: "state \<Rightarrow> int \<Rightarrow> int \<Rightarrow> int \<Rightarrow> state" where
  "submitMove st playerId r c =
     (let s = cloneState st in s\<lparr>pendingMoves := (pendingMoves s)(playerId \<mapsto> (r, c))\<rparr>)"

text \<open>\<^verbatim>\<open>Map.set\<close>: an existing key keeps its place, a new key is added at the end.\<close>

fun map_set :: "('k \<times> 'v) list \<Rightarrow> 'k \<Rightarrow> 'v \<Rightarrow> ('k \<times> 'v) list" where
  "map_set [] k v = [(k, v)]"
| "map_set ((k', v') # m) k v = (if k' = k then (k, v) # m else (k', v') # map_set m k v)"

text \<open>The first loop of \<^verbatim>\<open>resolveTurn\<close>: the intents of the living players.\<close>

fun collect_intended :: "(int \<rightharpoonup> cell) \<Rightarrow> player list \<Rightarrow> (int \<times> cell) list \<Rightarrow> (int \<times> cell) list" where
  "collect_intended pm [] intended = intended"
| "collect_intended pm (p # ps) intended =
     (case pm (pid p) of
        Some mv \<Rightarrow> collect_intended pm ps (map_set intended (pid p) mv)
      | None \<Rightarrow> collect_intended pm ps intended)"

text \<open>The second loop: how many intents name each destination.\<close>

fun tally :: "(int \<times> cell) list \<Rightarrow> (string \<rightharpoonup> nat) \<Rightarrow> (string \<rightharpoonup> nat)" where
  "tally [] destCount = destCount"
| "tally ((i, (r, c)) # es) destCount =
     tally es (destCount(cellKey r c \<mapsto> (case destCount (cellKey r c) of None \<Rightarrow> 0 | Some n \<Rightarrow> n) + 1))"

text \<open>
  The third loop runs over \<^verbatim>\<open>alive\<close>, the living players of \<^verbatim>\<open>s.players\<close> in their
  order, and updates these player objects in place.  The model runs over \<open>players\<close> and
  leaves the players that are not alive as they are; no status changes during the loop.
  \<open>resolve_step\<close> is the loop body for one player: it returns the player, the grid, the
  events it pushes and the moves it adds to the turn record.
\<close>

definition resolve_step ::
  "(int \<times> cell) list \<Rightarrow> (string \<rightharpoonup> nat) \<Rightarrow> player \<Rightarrow> grid \<Rightarrow>
   error + (player \<times> grid \<times> event list \<times> move_record list)" where
  "resolve_step intended destCount p g =
     (if status p \<noteq> ALIVE then Inr (p, g, [], [])
      else
        (case map_of intended (pid p) of
           None \<Rightarrow> Inr (p, g, [], [])
         | Some (nr, nc) \<Rightarrow>
             if (case destCount (cellKey nr nc) of None \<Rightarrow> False | Some n \<Rightarrow> n > 1) then
               Inr (p, g, [Collision [] (nr, nc)], [])
             else
               (case grid_get g nr nc of
                  Inl e \<Rightarrow> Inl e
                | Inr v \<Rightarrow>
                    if v \<noteq> Some EMPTY then Inr (p, g, [Blocked (pid p) (nr, nc)], [])
                    else
                      (case grid_set g nr nc BLOCKED of
                         Inl e \<Rightarrow> Inl e
                       | Inr g1 \<Rightarrow>
                           Inr (p\<lparr>row := nr, col := nc, score := score p + 1\<rparr>, g1,
                                [Move (pid p) (row p, col p) (nr, nc)],
                                [(pid p, (row p, col p), (nr, nc))])))))"

fun resolve_loop ::
  "(int \<times> cell) list \<Rightarrow> (string \<rightharpoonup> nat) \<Rightarrow> player list \<Rightarrow> grid \<Rightarrow>
   error + (player list \<times> grid \<times> event list \<times> move_record list)" where
  "resolve_loop intended destCount [] g = Inr ([], g, [], [])"
| "resolve_loop intended destCount (p # ps) g =
     (case resolve_step intended destCount p g of
        Inl e \<Rightarrow> Inl e
      | Inr (p', g1, ev, m) \<Rightarrow>
          (case resolve_loop intended destCount ps g1 of
             Inl e \<Rightarrow> Inl e
           | Inr (ps', g', evs, ms) \<Rightarrow> Inr (p' # ps', g', ev @ evs, m @ ms)))"

definition resolveTurn :: "state \<Rightarrow> error + (state \<times> event list)" where
  "resolveTurn st =
     (let s = cloneState st;
          alive = filter (\<lambda>p. status p = ALIVE) (players s);
          intended = collect_intended (pendingMoves s) alive [];
          destCount = tally intended Map.empty
      in case resolve_loop intended destCount (players s) (visited s) of
           Inl e \<Rightarrow> Inl e
         | Inr (ps', g', events, moves) \<Rightarrow>
             Inr (s\<lparr>players := ps', visited := g',
                     history := history s @ [(turn s, moves)],
                     pendingMoves := Map.empty,
                     turn := turn s + 1,
                     phase := EVAL\<rparr>, events))"

subsection \<open>Evaluation and elimination\<close>

text \<open>The body of the elimination loop for one player, and the loop.\<close>

definition eliminate_step :: "int \<Rightarrow> grid \<Rightarrow> player \<Rightarrow> error + (player \<times> event list)" where
  "eliminate_step sz g p =
     (if status p = ALIVE then
        (case getLegalMoves (row p) (col p) sz g of
           Inl e \<Rightarrow> Inl e
         | Inr moves \<Rightarrow>
             if length moves = 0
             then Inr (p\<lparr>status := ELIMINATED\<rparr>, [Elimination (pid p) (score p)])
             else Inr (p, []))
      else Inr (p, []))"

fun eliminate_loop :: "int \<Rightarrow> grid \<Rightarrow> player list \<Rightarrow> error + (player list \<times> event list)" where
  "eliminate_loop sz g [] = Inr ([], [])"
| "eliminate_loop sz g (p # ps) =
     (case eliminate_step sz g p of
        Inl e \<Rightarrow> Inl e
      | Inr (p', ev) \<Rightarrow>
          (case eliminate_loop sz g ps of
             Inl e \<Rightarrow> Inl e
           | Inr (ps', evs) \<Rightarrow> Inr (p' # ps', ev @ evs)))"

text \<open>\<^verbatim>\<open>stillAlive[0].status = WINNER\<close>: the first living player of the list.\<close>

fun crown_first_alive :: "player list \<Rightarrow> player list" where
  "crown_first_alive [] = []"
| "crown_first_alive (p # ps) =
     (if status p = ALIVE then p\<lparr>status := WINNER\<rparr> # ps else p # crown_first_alive ps)"

text \<open>\<^verbatim>\<open>Math.max(...xs)\<close>; \<open>None\<close> is \<open>-Infinity\<close>, the result for no arguments.\<close>

fun js_max :: "int list \<Rightarrow> int option" where
  "js_max [] = None"
| "js_max (x # xs) = (case js_max xs of None \<Rightarrow> Some x | Some m \<Rightarrow> Some (max x m))"

definition evaluateState :: "state \<Rightarrow> error + (state \<times> event list)" where
  "evaluateState st =
     (let s = cloneState st in
      case eliminate_loop (boardSize s) (visited s) (players s) of
        Inl e \<Rightarrow> Inl e
      | Inr (ps1, evs1) \<Rightarrow>
          (let stillAlive = filter (\<lambda>p. status p = ALIVE) ps1 in
           if length stillAlive \<le> 1 then
             (if length stillAlive = 1 then
                Inr (s\<lparr>players := crown_first_alive ps1, phase := GAMEOVER\<rparr>,
                     evs1 @ [Winner (pid (hd stillAlive))])
              else
                (let maxScore = js_max (map score ps1) in
                 Inr (s\<lparr>players :=
                          map (\<lambda>p. if Some (score p) = maxScore then p\<lparr>status := WINNER\<rparr> else p) ps1,
                        phase := GAMEOVER\<rparr>,
                      evs1 @ map (\<lambda>p. Winner (pid p))
                               (filter (\<lambda>p. Some (score p) = maxScore) ps1))))
           else Inr (s\<lparr>players := ps1, phase := SELECT\<rparr>, evs1)))"

subsection \<open>State initialisation\<close>

text \<open>\<^verbatim>\<open>xs.slice(0, n)\<close>; a negative \<open>n\<close> counts from the end.\<close>

definition js_slice0 :: "'a list \<Rightarrow> int \<Rightarrow> 'a list" where
  "js_slice0 xs n = (if n < 0 then take (nat (int (length xs) + n)) xs else take (nat n) xs)"

definition defaultStartPositions :: "int \<Rightarrow> int \<Rightarrow> cell list" where
  "defaultStartPositions n sz =
     (let pad = sz div 5;
          positions = [(pad, pad), (sz - 1 - pad, sz - 1 - pad), (pad, sz - 1 - pad), (sz - 1 - pad, pad)]
      in js_slice0 positions n)"

text \<open>
  \<^verbatim>\<open>Math.floor(rng() * size)\<close>.  The product of the generator's result and an integer
  of less than 21 bits is exact in double precision, so the floor is taken of the real
  product.
\<close>

definition rand_below :: "32 word \<Rightarrow> int \<Rightarrow> int \<times> 32 word" where
  "rand_below x sz = (let (u, x') = rng_call x in (\<lfloor>u * real_of_int sz\<rfloor>, x'))"

definition protected_keys :: "cell list \<Rightarrow> string set" where
  "protected_keys startPositions =
     set (map (\<lambda>(r, c). cellKey r c) startPositions) \<union>
     set (concat (map (\<lambda>(r, c). map (\<lambda>(dr, dc). cellKey (r + dr) (c + dc)) KNIGHT_MOVES)
                      startPositions))"

function place_loop ::
  "int \<Rightarrow> int \<Rightarrow> 32 word \<Rightarrow> string set \<Rightarrow> cell list \<Rightarrow> nat \<Rightarrow> cell list \<times> 32 word" where
  "place_loop sz count x occupied obs attempts =
     (if int (length obs) < count \<and> attempts < 2000 then
        (let r = fst (rand_below x sz);
             x1 = snd (rand_below x sz);
             c = fst (rand_below x1 sz);
             x2 = snd (rand_below x1 sz);
             k = cellKey r c
         in if k \<notin> occupied
            then place_loop sz count x2 (insert k occupied) (obs @ [(r, c)]) (Suc attempts)
            else place_loop sz count x2 occupied obs (Suc attempts))
      else (obs, x))"
  by pat_completeness auto
termination
  by (relation "measure (\<lambda>(sz, count, x, occupied, obs, attempts). 2000 - attempts)") auto

declare place_loop.simps [simp del]

text \<open>The obstacles and the generator's variable after the draws.\<close>

definition placeObstacles :: "int \<Rightarrow> 32 word \<Rightarrow> cell list \<Rightarrow> int \<Rightarrow> cell list \<times> 32 word" where
  "placeObstacles sz x startPositions count =
     place_loop sz count x (protected_keys startPositions) [] 0"

text \<open>The option object \<^verbatim>\<open>ruleset\<close>: every rule may be absent.\<close>

record rules_opt =
  opt_timerSeconds :: "int option"
  opt_obstacleCount :: "int option"
  opt_fogOfWar :: "bool option"
  opt_shrinkBoard :: "bool option"

definition merge_rules :: "rules_opt \<Rightarrow> rules_t" where
  "merge_rules ro =
     \<lparr> timerSeconds = (case opt_timerSeconds ro of None \<Rightarrow> 0 | Some v \<Rightarrow> v),
       obstacleCount = (case opt_obstacleCount ro of None \<Rightarrow> 0 | Some v \<Rightarrow> v),
       fogOfWar = (case opt_fogOfWar ro of None \<Rightarrow> False | Some v \<Rightarrow> v),
       shrinkBoard = (case opt_shrinkBoard ro of None \<Rightarrow> False | Some v \<Rightarrow> v) \<rparr>"

function init_players :: "int \<Rightarrow> int \<Rightarrow> cell list \<Rightarrow> int \<Rightarrow> error + player list" where
  "init_players playerCount humanCount starts i =
     (if i < playerCount then
        (case js_index starts i of
           None \<Rightarrow> Inl TypeError
         | Some (r, c) \<Rightarrow>
             (case init_players playerCount humanCount starts (i + 1) of
                Inl e \<Rightarrow> Inl e
              | Inr ps \<Rightarrow>
                  Inr (\<lparr> pid = i, isHuman = (i < humanCount), status = ALIVE,
                         row = r, col = c, score = 1,
                         aiStrategy = (if i = 0 then None
                                       else if i mod 2 = 1 then Some ''mobility''
                                       else Some ''aggressor'') \<rparr> # ps)))
      else Inr [])"
  by pat_completeness auto
termination
  by (relation "measure (\<lambda>(playerCount, humanCount, starts, i). nat (playerCount - i))") auto

declare init_players.simps [simp del]

fun mark_cells :: "grid \<Rightarrow> cell list \<Rightarrow> int \<Rightarrow> error + grid" where
  "mark_cells g [] v = Inr g"
| "mark_cells g ((r, c) # cs) v =
     (case grid_set g r c v of Inl e \<Rightarrow> Inl e | Inr g' \<Rightarrow> mark_cells g' cs v)"

text \<open>
  \<^verbatim>\<open>initState\<close> with its options given: the defaults of absent options are
  \<^verbatim>\<open>boardSize = 8, seed = 42, playerCount = 2, cpuCount = 1, ruleset = {}\<close>.
\<close>

definition initState :: "int \<Rightarrow> int \<Rightarrow> int \<Rightarrow> int \<Rightarrow> rules_opt \<Rightarrow> error + state" where
  "initState boardSize0 seed0 playerCount cpuCount ruleset0 =
     (let x0 = makeRng seed0;
          sz = boardSize0;
          rules = merge_rules ruleset0;
          humanCount = max 1 (playerCount - cpuCount);
          starts = defaultStartPositions playerCount sz
      in case init_players playerCount humanCount starts 0 of
           Inl e \<Rightarrow> Inl e
         | Inr ps \<Rightarrow>
             (case mark_cells (makeGrid sz) (map (\<lambda>p. (row p, col p)) ps) BLOCKED of
                Inl e \<Rightarrow> Inl e
              | Inr g1 \<Rightarrow>
                  (let obstacleList = fst (placeObstacles sz x0 starts (obstacleCount rules));
                       x1 = snd (placeObstacles sz x0 starts (obstacleCount rules))
                   in case mark_cells g1 obstacleList OBSTACLE of
                        Inl e \<Rightarrow> Inl e
                      | Inr g2 \<Rightarrow>
                          Inr \<lparr> boardSize = sz, seed = seed0, turn = 0, phase = SELECT,
                                players = ps, visited = g2, pendingMoves = Map.empty,
                                ruleset = rules, rng = x1, obstacles = obstacleList,
                                history = [] \<rparr>)))"

subsection \<open>Strategies (ai.js)\<close>

text \<open>
  A strategy works on the state it is given: it writes into \<^verbatim>\<open>state.visited\<close> and
  calls \<^verbatim>\<open>state.rng\<close>.  The model returns the choice together with the state as the
  call leaves it.  \<^verbatim>\<open>state.visited[r][c] = orig\<close> writes back what was read before.
\<close>

definition grid_restore :: "grid \<Rightarrow> int \<Rightarrow> int \<Rightarrow> int option \<Rightarrow> error + grid" where
  "grid_restore g r c orig =
     (case orig of None \<Rightarrow> Inl ArrayExtended | Some v \<Rightarrow> grid_set g r c v)"

definition scoreMobility :: "state \<Rightarrow> int \<Rightarrow> int \<Rightarrow> error + (int \<times> state)" where
  "scoreMobility s r c =
     (case grid_get (visited s) r c of
        Inl e \<Rightarrow> Inl e
      | Inr orig \<Rightarrow>
          (case grid_set (visited s) r c 1 of
             Inl e \<Rightarrow> Inl e
           | Inr g1 \<Rightarrow>
               (case countMobility r c (boardSize s) g1 of
                  Inl e \<Rightarrow> Inl e
                | Inr mobility \<Rightarrow>
                    (case grid_restore g1 r c orig of
                       Inl e \<Rightarrow> Inl e
                     | Inr g2 \<Rightarrow> Inr (mobility, s\<lparr>visited := g2\<rparr>)))))"

definition getOpponents :: "state \<Rightarrow> int \<Rightarrow> player list" where
  "getOpponents s playerId = filter (\<lambda>p. pid p \<noteq> playerId \<and> status p = ALIVE) (players s)"

text \<open>\<^verbatim>\<open>state.rng() > 0.5\<close>, with the generator's variable after the call.\<close>

definition coin :: "state \<Rightarrow> bool \<times> state" where
  "coin s = (fst (rng_call (rng s)) > 0.5, s\<lparr>rng := snd (rng_call (rng s))\<rparr>)"

fun mobility_loop :: "cell list \<Rightarrow> state \<Rightarrow> cell option \<Rightarrow> int \<Rightarrow> error + (cell option \<times> state)" where
  "mobility_loop [] s best bestScore = Inr (best, s)"
| "mobility_loop ((r, c) # ms) s best bestScore =
     (case scoreMobility s r c of
        Inl e \<Rightarrow> Inl e
      | Inr (mob, s1) \<Rightarrow>
          if mob > bestScore then mobility_loop ms s1 (Some (r, c)) mob
          else if mob = bestScore then
            (if fst (coin s1) then mobility_loop ms (snd (coin s1)) (Some (r, c)) bestScore
             else mobility_loop ms (snd (coin s1)) best bestScore)
          else mobility_loop ms s1 best bestScore)"

text \<open>\<^verbatim>\<open>best || moves[0]\<close>; \<open>None\<close> is \<^verbatim>\<open>undefined\<close>.\<close>

definition best_or_first :: "cell option \<Rightarrow> cell list \<Rightarrow> cell option" where
  "best_or_first best moves = (case best of Some b \<Rightarrow> Some b | None \<Rightarrow> js_index moves 0)"

definition mobility :: "state \<Rightarrow> player \<Rightarrow> cell list \<Rightarrow> error + (cell option \<times> state)" where
  "mobility s player moves =
     (case mobility_loop moves s None (- 1) of
        Inl e \<Rightarrow> Inl e
      | Inr (best, s') \<Rightarrow> Inr (best_or_first best moves, s'))"

text \<open>The mobility of every opponent on the grid \<open>g\<close>, in the order of the list.\<close>

fun opponent_mobilities :: "player list \<Rightarrow> int \<Rightarrow> grid \<Rightarrow> error + int list" where
  "opponent_mobilities [] sz g = Inr []"
| "opponent_mobilities (opp # opps) sz g =
     (case countMobility (row opp) (col opp) sz g of
        Inl e \<Rightarrow> Inl e
      | Inr before \<Rightarrow>
          (case opponent_mobilities opps sz g of
             Inl e \<Rightarrow> Inl e
           | Inr bs \<Rightarrow> Inr (before # bs)))"

text \<open>\<open>bestScore\<close> starts as \<open>-Infinity\<close>, which is \<open>None\<close>.\<close>

fun aggressor_loop ::
  "player list \<Rightarrow> cell list \<Rightarrow> state \<Rightarrow> cell option \<Rightarrow> int option \<Rightarrow> error + (cell option \<times> state)" where
  "aggressor_loop opponents [] s best bestScore = Inr (best, s)"
| "aggressor_loop opponents ((r, c) # ms) s best bestScore =
     (case grid_get (visited s) r c of
        Inl e \<Rightarrow> Inl e
      | Inr orig \<Rightarrow>
          (case grid_set (visited s) r c 1 of
             Inl e \<Rightarrow> Inl e
           | Inr g1 \<Rightarrow>
               (case opponent_mobilities opponents (boardSize s) g1 of
                  Inl e \<Rightarrow> Inl e
                | Inr befores \<Rightarrow>
                    (case countMobility r c (boardSize s) g1 of
                       Inl e \<Rightarrow> Inl e
                     | Inr ownMob \<Rightarrow>
                         (case grid_restore g1 r c orig of
                            Inl e \<Rightarrow> Inl e
                          | Inr g2 \<Rightarrow>
                              (let reduction = sum_list (map (\<lambda>before. 8 - before) befores);
                                   combined = reduction * 2 + ownMob;
                                   s1 = s\<lparr>visited := g2\<rparr>
                               in if (case bestScore of None \<Rightarrow> True | Some b \<Rightarrow> combined > b)
                                  then aggressor_loop opponents ms s1 (Some (r, c)) (Some combined)
                                  else if bestScore = Some combined then
                                    (if fst (coin s1)
                                     then aggressor_loop opponents ms (snd (coin s1)) (Some (r, c)) (Some combined)
                                     else aggressor_loop opponents ms (snd (coin s1)) best bestScore)
                                  else aggressor_loop opponents ms s1 best bestScore))))))"

definition aggressor :: "state \<Rightarrow> player \<Rightarrow> cell list \<Rightarrow> error + (cell option \<times> state)" where
  "aggressor s player moves =
     (let opponents = getOpponents s (pid player) in
      if length opponents = 0 then mobility s player moves
      else
        (case aggressor_loop opponents moves s None None of
           Inl e \<Rightarrow> Inl e
         | Inr (best, s') \<Rightarrow> Inr (best_or_first best moves, s')))"

text \<open>
  The balanced strategy computes its scores in double precision.  The model takes this
  arithmetic as two parameters: \<open>fscore total0 occupied own befores u\<close> is the double
  \<^verbatim>\<open>mob + aggress + state.rng() * 0.2\<close> that the loop body computes from
  \<^verbatim>\<open>total\<close>, \<^verbatim>\<open>occupied\<close>, the own mobility, the opponents' mobilities and the
  generator's result \<open>u\<close>; \<open>fgt score bestScore\<close> is the test \<^verbatim>\<open>score > bestScore\<close>,
  with \<open>None\<close> for the initial \<open>-Infinity\<close>.  What the strategy does to the grid and to
  the generator does not depend on them.
\<close>

fun balanced_loop ::
  "(int \<Rightarrow> int \<Rightarrow> int \<Rightarrow> int list \<Rightarrow> real \<Rightarrow> 'f) \<Rightarrow> ('f \<Rightarrow> 'f option \<Rightarrow> bool) \<Rightarrow> int \<Rightarrow> int \<Rightarrow>
   player list \<Rightarrow> cell list \<Rightarrow> state \<Rightarrow> cell option \<Rightarrow> 'f option \<Rightarrow> error + (cell option \<times> state)" where
  "balanced_loop fscore fgt total0 occupied opponents [] s best bestScore = Inr (best, s)"
| "balanced_loop fscore fgt total0 occupied opponents ((r, c) # ms) s best bestScore =
     (case grid_get (visited s) r c of
        Inl e \<Rightarrow> Inl e
      | Inr orig \<Rightarrow>
          (case grid_set (visited s) r c 1 of
             Inl e \<Rightarrow> Inl e
           | Inr g1 \<Rightarrow>
               (case countMobility r c (boardSize s) g1 of
                  Inl e \<Rightarrow> Inl e
                | Inr own \<Rightarrow>
                    (case opponent_mobilities opponents (boardSize s) g1 of
                       Inl e \<Rightarrow> Inl e
                     | Inr befores \<Rightarrow>
                         (let u = fst (rng_call (rng s));
                              x' = snd (rng_call (rng s));
                              sc = fscore total0 occupied own befores u
                          in case grid_restore g1 r c orig of
                               Inl e \<Rightarrow> Inl e
                             | Inr g2 \<Rightarrow>
                                 (let s1 = s\<lparr>visited := g2, rng := x'\<rparr>
                                  in if fgt sc bestScore
                                     then balanced_loop fscore fgt total0 occupied opponents ms s1
                                            (Some (r, c)) (Some sc)
                                     else balanced_loop fscore fgt total0 occupied opponents ms s1
                                            best bestScore))))))"

definition balanced ::
  "(int \<Rightarrow> int \<Rightarrow> int \<Rightarrow> int list \<Rightarrow> real \<Rightarrow> 'f) \<Rightarrow> ('f \<Rightarrow> 'f option \<Rightarrow> bool) \<Rightarrow>
   state \<Rightarrow> player \<Rightarrow> cell list \<Rightarrow> error + (cell option \<times> state)" where
  "balanced fscore fgt s player moves =
     (let total0 = boardSize s * boardSize s;
          occupied = int (length (filter (\<lambda>v. v \<noteq> 0) (concat (visited s))));
          opponents = getOpponents s (pid player)
      in case balanced_loop fscore fgt total0 occupied opponents moves s None None of
           Inl e \<Rightarrow> Inl e
         | Inr (best, s') \<Rightarrow> Inr (best_or_first best moves, s'))"

text \<open>The scores of the balanced strategy read in exact real arithmetic.\<close>

definition balanced_score :: "int \<Rightarrow> int \<Rightarrow> int \<Rightarrow> int list \<Rightarrow> real \<Rightarrow> real" where
  "balanced_score total0 occupied own befores u =
     (let density = real_of_int occupied / real_of_int total0;
          aggressWeight = density * 2;
          mobWeight = 1 - density * 0.5;
          mob = real_of_int own * mobWeight;
          aggress = sum_list (map (\<lambda>before. real_of_int (8 - before) * aggressWeight) befores)
      in mob + aggress + u * 0.2)"

definition score_gt :: "real \<Rightarrow> real option \<Rightarrow> bool" where
  "score_gt sc bestScore = (case bestScore of None \<Rightarrow> True | Some b \<Rightarrow> sc > b)"

section \<open>Notions used in the statements\<close>

text \<open>The number of move events whose subject is the player with id \<open>k\<close>.\<close>

definition move_count :: "int \<Rightarrow> event list \<Rightarrow> nat" where
  "move_count k evs = length (filter (\<lambda>e. case e of Move j fr to \<Rightarrow> j = k | _ \<Rightarrow> False) evs)"

text \<open>The number of move events in a list of events.\<close>

definition moves_in :: "event list \<Rightarrow> nat" where
  "moves_in evs = length (filter (\<lambda>e. case e of Move j fr to \<Rightarrow> True | _ \<Rightarrow> False) evs)"

text \<open>The number of EMPTY cells of a grid.\<close>

definition empties :: "grid \<Rightarrow> nat" where
  "empties g = length (filter (\<lambda>v. v = EMPTY) (concat g))"

text \<open>
  \<open>grid_le g g'\<close>: the grid \<open>g'\<close> has the rows and columns of \<open>g\<close>, and every cell that is
  not EMPTY in \<open>g\<close> has the same marker in \<open>g'\<close>.
\<close>

definition grid_le :: "grid \<Rightarrow> grid \<Rightarrow> bool" where
  "grid_le g g' \<longleftrightarrow>
     length g' = length g \<and>
     (\<forall>i<length g. length (g' ! i) = length (g ! i) \<and>
        (\<forall>j<length (g ! i). g ! i ! j \<noteq> EMPTY \<longrightarrow> g' ! i ! j = g ! i ! j))"

text \<open>Every pending destination of a living player names a row of the grid.\<close>

definition intents_in_rows :: "state \<Rightarrow> bool" where
  "intents_in_rows s \<longleftrightarrow>
     (\<forall>p\<in>set (players s). status p = ALIVE \<longrightarrow>
        (case pendingMoves s (pid p) of
           None \<Rightarrow> True
         | Some (r, c) \<Rightarrow> 0 \<le> r \<and> r < int (length (visited s))))"

text \<open>
  A cell is contested when living players of two different ids have pending intents for
  it.  \<open>lone_intents_in_rows\<close>: every pending destination of a living player that is not
  contested names a row of the grid.
\<close>

definition contested :: "state \<Rightarrow> cell \<Rightarrow> bool" where
  "contested s d \<longleftrightarrow>
     (\<exists>p\<in>set (players s). \<exists>q\<in>set (players s).
        status p = ALIVE \<and> status q = ALIVE \<and> pid p \<noteq> pid q \<and>
        pendingMoves s (pid p) = Some d \<and> pendingMoves s (pid q) = Some d)"

definition lone_intents_in_rows :: "state \<Rightarrow> bool" where
  "lone_intents_in_rows s \<longleftrightarrow>
     (\<forall>p\<in>set (players s). status p = ALIVE \<longrightarrow>
        (case pendingMoves s (pid p) of
           None \<Rightarrow> True
         | Some (r, c) \<Rightarrow> contested s (r, c) \<or> (0 \<le> r \<and> r < int (length (visited s)))))"

text \<open>
  The same condition for one player in terms of the collected intents and their tally, for
  a grid of \<open>n\<close> rows: the loop body reads no row that the grid does not have.
\<close>

definition step_in_rows :: "(int \<times> cell) list \<Rightarrow> (string \<rightharpoonup> nat) \<Rightarrow> nat \<Rightarrow> player \<Rightarrow> bool" where
  "step_in_rows I D n p \<longleftrightarrow>
     (status p = ALIVE \<longrightarrow>
        (case map_of I (pid p) of
           None \<Rightarrow> True
         | Some (r, c) \<Rightarrow>
             (case D (cellKey r c) of None \<Rightarrow> False | Some k \<Rightarrow> k > 1) \<or>
             (0 \<le> r \<and> r < int n)))"

text \<open>The intents that \<open>resolveTurn\<close> collects in a state, and their tally.\<close>

definition intended_of :: "state \<Rightarrow> (int \<times> cell) list" where
  "intended_of s =
     collect_intended (pendingMoves s) (filter (\<lambda>p. status p = ALIVE) (players s)) []"

definition destCount_of :: "state \<Rightarrow> (string \<rightharpoonup> nat)" where
  "destCount_of s = tally (intended_of s) Map.empty"

text \<open>The options of scenario A, and its initial state as \<open>initState\<close> computes it.\<close>

definition rulesA :: rules_opt where
  "rulesA = \<lparr> opt_timerSeconds = Some 0, opt_obstacleCount = Some 0,
              opt_fogOfWar = None, opt_shrinkBoard = None \<rparr>"

definition playerA0 :: player where
  "playerA0 = \<lparr> pid = 0, isHuman = True, status = ALIVE, row = 1, col = 1, score = 1,
                 aiStrategy = None \<rparr>"

definition playerA1 :: player where
  "playerA1 = \<lparr> pid = 1, isHuman = True, status = ALIVE, row = 6, col = 6, score = 1,
                 aiStrategy = Some ''mobility'' \<rparr>"

definition gridA :: grid where
  "gridA = [[0,0,0,0,0,0,0,0],
            [0,1,0,0,0,0,0,0],
            [0,0,0,0,0,0,0,0],
            [0,0,0,0,0,0,0,0],
            [0,0,0,0,0,0,0,0],
            [0,0,0,0,0,0,0,0],
            [0,0,0,0,0,0,1,0],
            [0,0,0,0,0,0,0,0]]"

definition stateA :: state where
  "stateA = \<lparr> boardSize = 8, seed = 42, turn = 0, phase = SELECT,
               players = [playerA0, playerA1], visited = gridA, pendingMoves = Map.empty,
               ruleset = \<lparr> timerSeconds = 0, obstacleCount = 0, fogOfWar = False,
                           shrinkBoard = False \<rparr>,
               rng = 42, obstacles = [], history = [] \<rparr>"

text \<open>
  The states that the three transitions reach from an initial state, each with the lg of
  all events emitted on the way.
\<close>

inductive reachable :: "state \<Rightarrow> event list \<Rightarrow> bool" where
  init: "initState bs sd pc cc ro = Inr s \<Longrightarrow> reachable s []"
| submit: "reachable s lg \<Longrightarrow> reachable (submitMove s k r c) lg"
| resolve: "reachable s lg \<Longrightarrow> resolveTurn s = Inr (s', evs) \<Longrightarrow> reachable s' (lg @ evs)"
| evaluate: "reachable s lg \<Longrightarrow> evaluateState s = Inr (s', evs) \<Longrightarrow> reachable s' (lg @ evs)"

text \<open>One transition of the engine, from any state.\<close>

inductive transition :: "state \<Rightarrow> state \<Rightarrow> bool" where
  t_submit: "transition s (submitMove s k r c)"
| t_resolve: "resolveTurn s = Inr (s', evs) \<Longrightarrow> transition s s'"
| t_evaluate: "evaluateState s = Inr (s', evs) \<Longrightarrow> transition s s'"

text \<open>
  Legal moves as the specification words them: a destination is legal for a player when it
  lies one of the eight knight offsets \<open>(\<plusminus>2,\<plusminus>1)\<close>, \<open>(\<plusminus>1,\<plusminus>2)\<close> from the player's
  cell, is in bounds, and its grid cell is EMPTY.  A player is stuck when no destination is
  legal for it.
\<close>

definition knight_offset :: "int \<Rightarrow> int \<Rightarrow> bool" where
  "knight_offset dr dc \<longleftrightarrow> (\<bar>dr\<bar> = 2 \<and> \<bar>dc\<bar> = 1) \<or> (\<bar>dr\<bar> = 1 \<and> \<bar>dc\<bar> = 2)"

definition legal_destination :: "state \<Rightarrow> player \<Rightarrow> cell \<Rightarrow> bool" where
  "legal_destination s p d \<longleftrightarrow>
     knight_offset (fst d - row p) (snd d - col p) \<and>
     inBounds (fst d) (snd d) (boardSize s) \<and>
     grid_get (visited s) (fst d) (snd d) = Inr (Some EMPTY)"

definition stuck :: "state \<Rightarrow> player \<Rightarrow> bool" where
  "stuck s p \<longleftrightarrow> (\<forall>d. \<not> legal_destination s p d)"

text \<open>What the elimination pass makes of a player.\<close>

definition after_elimination :: "state \<Rightarrow> player \<Rightarrow> player" where
  "after_elimination s p = (if status p = ALIVE \<and> stuck s p then p\<lparr>status := ELIMINATED\<rparr> else p)"

definition elimination_events :: "state \<Rightarrow> event list" where
  "elimination_events s =
     map (\<lambda>p. Elimination (pid p) (score p))
       (filter (\<lambda>p. status p = ALIVE \<and> stuck s p) (players s))"

text \<open>The players that are still ALIVE after the elimination pass.\<close>

definition survivors :: "state \<Rightarrow> player list" where
  "survivors s = filter (\<lambda>p. status p = ALIVE \<and> \<not> stuck s p) (players s)"

text \<open>The initial state of two players on a 2x2 board: no knight move exists there.\<close>

definition playerB0 :: player where
  "playerB0 = \<lparr> pid = 0, isHuman = True, status = ALIVE, row = 0, col = 0, score = 1,
                 aiStrategy = None \<rparr>"

definition playerB1 :: player where
  "playerB1 = \<lparr> pid = 1, isHuman = True, status = ALIVE, row = 1, col = 1, score = 1,
                 aiStrategy = Some ''mobility'' \<rparr>"

definition stateB :: state where
  "stateB = \<lparr> boardSize = 2, seed = 42, turn = 0, phase = SELECT,
               players = [playerB0, playerB1], visited = [[1, 0], [0, 1]],
               pendingMoves = Map.empty,
               ruleset = \<lparr> timerSeconds = 0, obstacleCount = 0, fogOfWar = False,
                           shrinkBoard = False \<rparr>,
               rng = 42, obstacles = [], history = [] \<rparr>"

text \<open>
  Runs of rounds.  A round is \<open>resolveTurn\<close> followed by \<open>evaluateState\<close>; before each
  round any list of intents \<open>(playerId, row, col)\<close> is submitted.  \<open>run_rounds\<close> returns
  the state after each round with the events of that round.
\<close>

fun submit_all :: "state \<Rightarrow> (int \<times> int \<times> int) list \<Rightarrow> state" where
  "submit_all s [] = s"
| "submit_all s ((k, r, c) # xs) = submit_all (submitMove s k r c) xs"

definition play_round :: "state \<Rightarrow> error + (state \<times> event list)" where
  "play_round s =
     (case resolveTurn s of
        Inl e \<Rightarrow> Inl e
      | Inr (s1, ev1) \<Rightarrow>
          (case evaluateState s1 of
             Inl e \<Rightarrow> Inl e
           | Inr (s2, ev2) \<Rightarrow> Inr (s2, ev1 @ ev2)))"

fun run_rounds :: "state \<Rightarrow> (int \<times> int \<times> int) list list \<Rightarrow> error + (state \<times> event list) list" where
  "run_rounds s [] = Inr []"
| "run_rounds s (subs # rest) =
     (case play_round (submit_all s subs) of
        Inl e \<Rightarrow> Inl e
      | Inr (s', evs) \<Rightarrow>
          (case run_rounds s' rest of
             Inl e \<Rightarrow> Inl e
           | Inr tr \<Rightarrow> Inr ((s', evs) # tr)))"

text \<open>
  Two players on a 3x3 board: the initial state, and the state after \<open>resolveTurn\<close> of the
  third round of the game in which player 0 moves (0,0), (1,2), (2,0), (0,1) and player 1
  moves (2,2), (1,0), (0,2) and then passes.
\<close>

definition playerK0 :: player where
  "playerK0 = \<lparr> pid = 0, isHuman = True, status = ALIVE, row = 0, col = 0, score = 1,
                 aiStrategy = None \<rparr>"

definition playerK1 :: player where
  "playerK1 = \<lparr> pid = 1, isHuman = True, status = ALIVE, row = 2, col = 2, score = 1,
                 aiStrategy = Some ''mobility'' \<rparr>"

definition stateK :: state where
  "stateK = \<lparr> boardSize = 3, seed = 42, turn = 0, phase = SELECT,
               players = [playerK0, playerK1], visited = [[1, 0, 0], [0, 0, 0], [0, 0, 1]],
               pendingMoves = Map.empty,
               ruleset = \<lparr> timerSeconds = 0, obstacleCount = 0, fogOfWar = False,
                           shrinkBoard = False \<rparr>,
               rng = 42, obstacles = [], history = [] \<rparr>"

definition stateK1 :: state where
  "stateK1 = stateK\<lparr> turn := 1,
               players := [playerK0\<lparr>row := 1, col := 2, score := 2\<rparr>,
                           playerK1\<lparr>row := 1, col := 0, score := 2\<rparr>],
               visited := [[1, 0, 0], [1, 0, 1], [0, 0, 1]],
               history := [(0, [(0, (0, 0), (1, 2)), (1, (2, 2), (1, 0))])] \<rparr>"

definition stateK2 :: state where
  "stateK2 = stateK\<lparr> turn := 2,
               players := [playerK0\<lparr>row := 2, col := 0, score := 3\<rparr>,
                           playerK1\<lparr>row := 0, col := 2, score := 3\<rparr>],
               visited := [[1, 0, 1], [1, 0, 1], [1, 0, 1]],
               history := [(0, [(0, (0, 0), (1, 2)), (1, (2, 2), (1, 0))]),
                           (1, [(0, (1, 2), (2, 0)), (1, (1, 0), (0, 2))])] \<rparr>"

definition historyC :: "turn_record list" where
  "historyC = [(0, [(0, (0, 0), (1, 2)), (1, (2, 2), (1, 0))]),
               (1, [(0, (1, 2), (2, 0)), (1, (1, 0), (0, 2))]),
               (2, [(0, (2, 0), (0, 1))])]"

definition stateC :: state where
  "stateC = stateK\<lparr> turn := 3, phase := EVAL,
               players := [playerK0\<lparr>row := 0, col := 1, score := 4\<rparr>,
                           playerK1\<lparr>row := 0, col := 2, score := 3\<rparr>],
               visited := [[1, 1, 1], [1, 0, 1], [1, 0, 1]],
               history := historyC \<rparr>"

text \<open>The state after \<open>evaluateState\<close> of that round, and the same with both players WINNER.\<close>

definition stateG :: state where
  "stateG = stateC\<lparr> phase := GAMEOVER,
               players := [playerK0\<lparr>row := 0, col := 1, score := 4, status := ELIMINATED\<rparr>,
                           playerK1\<lparr>row := 0, col := 2, score := 3, status := WINNER\<rparr>] \<rparr>"

definition stateW :: state where
  "stateW = stateG\<lparr> players := [playerK0\<lparr>row := 0, col := 1, score := 4, status := WINNER\<rparr>,
                           playerK1\<lparr>row := 0, col := 2, score := 3, status := WINNER\<rparr>] \<rparr>"

text \<open>
  A run makes progress when every round that starts in a phase other than GAMEOVER
  executes at least one move.  \<open>progress s tr\<close> says so of the run with trace \<open>tr\<close> that
  starts in \<open>s\<close>.
\<close>

fun progress :: "state \<Rightarrow> (state \<times> event list) list \<Rightarrow> bool" where
  "progress s [] = True"
| "progress s ((s', evs) # tr) = ((phase s = GAMEOVER \<or> 0 < moves_in evs) \<and> progress s' tr)"

text \<open>Options that ask for 100 obstacles.\<close>

definition rules100 :: rules_opt where
  "rules100 = \<lparr> opt_timerSeconds = Some 0, opt_obstacleCount = Some 100,
                opt_fogOfWar = None, opt_shrinkBoard = None \<rparr>"

section \<open>Cloning and cell keys\<close>

lemma cloneState_id [simp]: "cloneState s = s"
  by (simp add: cloneState_def)

lemma lt10: "(d::nat) < 10 \<Longrightarrow> d = 0 \<or> d = 1 \<or> d = 2 \<or> d = 3 \<or> d = 4 \<or> d = 5 \<or> d = 6 \<or> d = 7 \<or> d = 8 \<or> d = 9"
  by arith

lemma of_char_digit: "d < 10 \<Longrightarrow> (of_char (digit_char d) :: nat) = 48 + d"
proof -
  assume "d < 10"
  from lt10 [OF this] show ?thesis
    by (elim disjE) (simp_all add: digit_char_def)
qed

lemma digit_char_inj: "d < 10 \<Longrightarrow> e < 10 \<Longrightarrow> digit_char d = digit_char e \<Longrightarrow> d = e"
proof -
  assume d: "d < 10" and e: "e < 10" and eq: "digit_char d = digit_char e"
  have "48 + d = (of_char (digit_char d) :: nat)"
    using d by (simp only: of_char_digit)
  also have "\<dots> = of_char (digit_char e)"
    by (simp only: eq)
  also have "\<dots> = 48 + e"
    using e by (simp only: of_char_digit)
  finally show "d = e" by simp
qed

lemma digits_chars: "ch \<in> set (digits n) \<Longrightarrow> (\<exists>d<10. ch = digit_char d)"
proof (induction n rule: digits.induct)
  case (1 n)
  show ?case
  proof (cases "n < 10")
    case True
    with 1 show ?thesis by (auto simp: digits.simps [of n])
  next
    case False
    with 1 show ?thesis 
      by (auto simp: digits.simps [of n] intro: exI [of _ "n mod 10"])
  qed
qed

lemma digits_not_Nil: "digits n \<noteq> []"
  by (subst digits.simps) simp

lemma digits_length: "length (digits n) = 1 \<longleftrightarrow> n < 10"
  using digits_not_Nil [of "n div 10"] by (subst digits.simps) (simp)

lemma digits_inj: "digits n = digits m \<Longrightarrow> n = m"
proof (induction n arbitrary: m rule: digits.induct)
  case (1 n)
  have len: "(n < 10) = (m < 10)"
    using 1(2) digits_length [of n] digits_length [of m] by simp
  show ?case
  proof (cases "n < 10")
    case True
    with len 1(2) show ?thesis
      by (simp add: digits.simps [of n] digits.simps [of m] digit_char_inj)
  next
    case False
    with len have m: "\<not> m < 10" by simp
    from 1(2) False m
    have eq: "digits (n div 10) @ [digit_char (n mod 10)] = digits (m div 10) @ [digit_char (m mod 10)]"
      by (simp add: digits.simps [of n] digits.simps [of m])
    then have "digits (n div 10) = digits (m div 10)" and d: "digit_char (n mod 10) = digit_char (m mod 10)"
      by simp_all
    then have "n div 10 = m div 10" using 1(1) False by simp
    moreover have "n mod 10 = m mod 10" using d by (simp add: digit_char_inj)
    ultimately show ?thesis by (metis div_mult_mod_eq)
  qed
qed

lemma comma_not_digit: "d < 10 \<Longrightarrow> digit_char d \<noteq> CHR '',''"
proof
  assume d: "d < 10" and eq: "digit_char d = CHR '',''"
  have "(of_char (digit_char d) :: nat) = 44" by (simp only: eq) simp
  with of_char_digit [OF d] show False by simp
qed

lemma minus_not_digit: "d < 10 \<Longrightarrow> digit_char d \<noteq> CHR ''-''"
proof
  assume d: "d < 10" and eq: "digit_char d = CHR ''-''"
  have "(of_char (digit_char d) :: nat) = 45" by (simp only: eq) simp
  with of_char_digit [OF d] show False by simp
qed

lemma comma_notin_digits: "CHR '','' \<notin> set (digits n)"
proof
  assume "CHR '','' \<in> set (digits n)"
  from digits_chars [OF this] obtain d where "d < 10" and "CHR '','' = digit_char d"
    by (elim exE conjE)
  with comma_not_digit [of d] show False by simp
qed

lemma comma_notin_int_str: "CHR '','' \<notin> set (int_str i)"
  by (simp add: int_str_def comma_notin_digits)

lemma hd_digits: "hd (digits n) \<noteq> CHR ''-''"
proof -
  have "hd (digits n) \<in> set (digits n)" by (simp add: digits_not_Nil)
  from digits_chars [OF this] obtain d where "d < 10" and "hd (digits n) = digit_char d"
    by (elim exE conjE)
  with minus_not_digit [of d] show ?thesis by simp
qed

lemma minus_digits_neq: "CHR ''-'' # xs \<noteq> digits n"
  using hd_digits [of n] by (metis list.sel(1))

lemma int_str_inj: "int_str i = int_str j \<Longrightarrow> i = j"
proof -
  assume eq: "int_str i = int_str j"
  have "(i < 0) = (j < 0)"
    using eq minus_digits_neq [of "digits (nat (- i))" "nat j"] minus_digits_neq [of "digits (nat (- j))" "nat i"]
    by (auto simp: int_str_def split: if_splits)
  with eq show ?thesis
    by (auto simp: int_str_def split: if_splits dest!: digits_inj)
qed

lemma split_at_sep:
  "a \<notin> set xs \<Longrightarrow> a \<notin> set xs' \<Longrightarrow> xs @ a # ys = xs' @ a # ys' \<Longrightarrow> xs = xs' \<and> ys = ys'"
proof (induction xs arbitrary: xs')
  case Nil
  then show ?case by (cases xs') auto
next
  case (Cons x xs)
  then show ?case by (cases xs') auto
qed

lemma cellKey_eq_iff: "cellKey r c = cellKey r' c' \<longleftrightarrow> r = r' \<and> c = c'"
  using split_at_sep [OF comma_notin_int_str comma_notin_int_str, of r "int_str c" r' "int_str c'"]
  by (auto simp: cellKey_def dest: int_str_inj)

section \<open>The seeded generator is xorshift32\<close>

lemma unat_shl: "unat (push_bit n (x::32 word)) = (unat x * 2 ^ n) mod 2 ^ 32"
proof -
  have "unat (push_bit n x) = take_bit LENGTH(32) (push_bit n (unat x))"
    by (rule unsigned_push_bit_eq)
  also have "\<dots> = (unat x * 2 ^ n) mod 2 ^ 32"
    by (simp add: take_bit_eq_mod push_bit_eq_mult)
  finally show ?thesis .
qed

lemma unat_shr: "unat (drop_bit n (x::32 word)) = unat x div 2 ^ n"
proof -
  have "unat (drop_bit n x) = drop_bit n (unat x)"
    by (rule unat_drop_bit_eq)
  also have "\<dots> = unat x div 2 ^ n"
    by (rule drop_bit_eq_div)
  finally show ?thesis .
qed

lemma unat_rng_next: "unat (rng_next x) = spec_xorshift (unat x)"
  unfolding rng_next_def spec_xorshift_def Let_def
  by (simp only: unsigned_xor_eq unat_shl unat_shr)

lemma unat_makeRng: "unat (makeRng seed0) = spec_seed_state seed0"
proof -
  have a: "unat (word_of_int seed0 :: 32 word) = nat (seed0 mod 4294967296)"
    by (simp add: unat_eq_nat_uint uint_word_of_int take_bit_eq_mod)
  have b: "(word_of_int seed0 :: 32 word) = 0 \<longleftrightarrow> seed0 mod 4294967296 = 0"
    by (simp add: word_of_int_eq_0_iff take_bit_eq_mod dvd_eq_mod_eq_0)
  show ?thesis
    unfolding makeRng_def spec_seed_state_def Let_def
    apply (simp only: b)
    apply (simp only: a split: if_split)
    apply simp
    done
qed

lemma unat_rng_state_after: "unat (rng_state_after n x) = (spec_xorshift ^^ n) (unat x)"
  by (induction n arbitrary: x) (simp_all add: rng_call_def Let_def unat_rng_next funpow_swap1)

lemma rng_output_spec: "rng_output seed0 n = spec_output seed0 n"
  by (simp add: rng_output_def spec_output_def rng_call_def Let_def unat_rng_next
      unat_rng_state_after unat_makeRng del: of_nat_unat)

lemma rng_call_range: "0 \<le> fst (rng_call x) \<and> fst (rng_call x) < 1"
proof -
  have "unat (rng_next x) < 2 ^ 32"
    using unsigned_less [of "rng_next x"] by simp
  then have "real (unat (rng_next x)) < 4294967296"
    by (simp del: of_nat_unat)
  then show ?thesis
    by (simp add: rng_call_def Let_def del: of_nat_unat)
qed

text \<open>
  Claim C3.  The generator made by \<open>makeRng\<close> is xorshift32 as the specification words
  it: its variable starts as the seed reduced to 32 bits, with 0 replaced by 1; a call
  turns the variable \<open>x\<close> into the specification's shift-and-xor of \<open>x\<close> (left 13,
  unsigned right 17, left 5, on 32 bits) and returns the new variable, read unsigned,
  divided by \<open>2^32\<close>; hence the \<open>n\<close>-th result for a seed is the specification's, a
  function of the seed and the number of calls alone, and lies in \<open>[0, 1)\<close>.
\<close>

theorem C3_makeRng_is_xorshift32:
  "unat (makeRng seed0) = spec_seed_state seed0
   \<and> unat (snd (rng_call x)) = spec_xorshift (unat x)
   \<and> fst (rng_call x) = real (unat (snd (rng_call x))) / 2 ^ 32
   \<and> rng_output seed0 n = spec_output seed0 n
   \<and> 0 \<le> rng_output seed0 n \<and> rng_output seed0 n < 1"
proof -
  have "unat (snd (rng_call x)) = spec_xorshift (unat x)"
    by (simp add: rng_call_def Let_def unat_rng_next)
  moreover have "fst (rng_call x) = real (unat (snd (rng_call x))) / 2 ^ 32"
    by (simp add: rng_call_def Let_def del: of_nat_unat)
  moreover have "0 \<le> rng_output seed0 n \<and> rng_output seed0 n < 1"
    unfolding rng_output_def by (rule rng_call_range)
  ultimately show ?thesis
    using unat_makeRng [of seed0] rng_output_spec [of seed0 n] by simp
qed

text \<open>Seed 42: the first result is \<open>11355432 / 2^32\<close>; seed 0 runs as seed 1.\<close>

theorem C3_witness:
  "rng_output 42 0 = 1419429 / 536870912 \<and> spec_output 42 0 = 1419429 / 536870912
   \<and> makeRng 0 = 1 \<and> spec_seed_state 0 = 1"
proof -
  have "rng_output 42 0 = 1419429 / 536870912"
    by (simp add: rng_output_def rng_call_def makeRng_def rng_next_def)
  moreover have "makeRng 0 = 1"
    by (simp add: makeRng_def)
  ultimately show ?thesis
    using C3_makeRng_is_xorshift32 [of 42 1 0] C3_makeRng_is_xorshift32 [of 0 1 0] by simp
qed

section \<open>Move resolution\<close>

subsection \<open>The intents of the living players\<close>

lemma map_of_map_set: "map_of (map_set m k v) = (map_of m)(k \<mapsto> v)"
  by (induction m k v rule: map_set.induct) auto

lemma keys_map_set: "fst ` set (map_set m k v) = insert k (fst ` set m)"
  by (induction m k v rule: map_set.induct) auto

lemma distinct_map_set: "distinct (map fst m) \<Longrightarrow> distinct (map fst (map_set m k v))"
proof (induction m k v rule: map_set.induct)
  case (1 k v)
  then show ?case by simp
next
  case (2 k' v' m k v)
  then show ?case by (auto simp: keys_map_set)
qed

lemma map_of_collect_intended:
  "map_of (collect_intended pm ps acc) k =
     (if k \<in> pid ` set ps \<and> pm k \<noteq> None then pm k else map_of acc k)"
  by (induction ps arbitrary: acc) (auto simp: map_of_map_set split: option.splits)

lemma distinct_collect_intended:
  "distinct (map fst acc) \<Longrightarrow> distinct (map fst (collect_intended pm ps acc))"
  by (induction ps arbitrary: acc) (auto simp: distinct_map_set split: option.splits)

lemma collect_intended_cong:
  "(\<And>p. p \<in> set ps \<Longrightarrow> pm (pid p) = pm' (pid p)) \<Longrightarrow>
   collect_intended pm ps acc = collect_intended pm' ps acc"
  by (induction ps arbitrary: acc) (auto split: option.splits)

subsection \<open>The tally of destinations\<close>

lemma tally_count:
  "tally es m key =
     (let n = length (filter (\<lambda>e. cellKey (fst (snd e)) (snd (snd e)) = key) es)
      in if n = 0 then m key else Some (n + (case m key of None \<Rightarrow> 0 | Some j \<Rightarrow> j)))"
proof (induction es arbitrary: m)
  case Nil
  then show ?case by simp
next
  case (Cons e es)
  obtain i r c where e: "e = (i, (r, c))" by (metis prod.collapse)
  let ?m' = "m(cellKey r c \<mapsto> (case m (cellKey r c) of None \<Rightarrow> 0 | Some n \<Rightarrow> n) + 1)"
  have "tally (e # es) m key = tally es ?m' key"
    by (simp add: e)
  also note Cons.IH [of ?m']
  finally show ?case
    by (cases "cellKey r c = key") (auto simp: e Let_def split: option.splits)
qed

lemma tally_empty:
  "tally es Map.empty (cellKey r c) =
     (let n = length (filter (\<lambda>e. snd e = (r, c)) es) in if n = 0 then None else Some n)"
proof -
  have "(\<lambda>e::int \<times> cell. cellKey (fst (snd e)) (snd (snd e)) = cellKey r c) = (\<lambda>e. snd e = (r, c))"
    by (auto simp: cellKey_eq_iff fun_eq_iff)
  then show ?thesis
    by (simp add: tally_count Let_def)
qed

lemma two_in_filter:
  assumes "x \<in> set xs" "y \<in> set xs" "x \<noteq> y" "P x" "P y"
  shows "2 \<le> length (filter P xs)"
proof -
  have "{x, y} \<subseteq> set (filter P xs)" using assms by simp
  then have "card {x, y} \<le> card (set (filter P xs))"
    by (intro card_mono) simp_all
  also have "\<dots> \<le> length (filter P xs)" by (rule card_length)
  finally show ?thesis using assms(3) by simp
qed

subsection \<open>Grids\<close>

lemma grid_le_refl: "grid_le g g"
  by (simp add: grid_le_def)

lemma grid_le_trans: "grid_le g1 g2 \<Longrightarrow> grid_le g2 g3 \<Longrightarrow> grid_le g1 g3"
  unfolding grid_le_def by (metis (no_types, lifting))

lemma grid_get_Some:
  "grid_get g r c = Inr (Some v) \<longleftrightarrow>
     0 \<le> r \<and> nat r < length g \<and> 0 \<le> c \<and> nat c < length (g ! nat r) \<and> g ! nat r ! nat c = v"
  by (auto simp: grid_get_def js_index_def split: option.splits if_splits)

lemma grid_get_total:
  "0 \<le> r \<Longrightarrow> r < int (length g) \<Longrightarrow> \<exists>v. grid_get g r c = Inr v"
  by (simp add: grid_get_def js_index_def)

lemma grid_get_Inl: "grid_get g r c = Inl e \<longleftrightarrow> e = TypeError \<and> \<not> (0 \<le> r \<and> r < int (length g))"
  by (auto simp: grid_get_def js_index_def split: option.splits if_splits)

lemma grid_set_on_cell:
  "grid_get g r c = Inr (Some v) \<Longrightarrow> grid_set g r c w = Inr (g[nat r := (g ! nat r)[nat c := w]])"
  by (auto simp: grid_get_def grid_set_def js_index_def split: option.splits if_splits)

lemma grid_le_set_empty:
  assumes "grid_get g r c = Inr (Some EMPTY)"
  shows "grid_le g (g[nat r := (g ! nat r)[nat c := w]])"
  using assms unfolding grid_le_def grid_get_Some
  by (auto simp: nth_list_update)

lemma grid_le_get:
  assumes "grid_le g g'" "grid_get g r c = Inr v" "v \<noteq> Some EMPTY"
  shows "grid_get g' r c = Inr v"
proof (cases v)
  case None
  with assms show ?thesis
    by (auto simp: grid_le_def grid_get_def js_index_def split: option.splits if_splits)
next
  case (Some a)
  with assms have a: "grid_get g r c = Inr (Some a)" "a \<noteq> EMPTY"
    by simp_all
  from a(1) have "0 \<le> r" "nat r < length g" "0 \<le> c" "nat c < length (g ! nat r)" "g ! nat r ! nat c = a"
    by (simp_all add: grid_get_Some)
  with assms(1) a(2) have "grid_get g' r c = Inr (Some a)"
    by (simp add: grid_get_Some grid_le_def)
  with Some show ?thesis by simp
qed

lemma grid_le_length: "grid_le g g' \<Longrightarrow> length g' = length g"
  by (simp add: grid_le_def)

subsection \<open>The loop body\<close>

lemma resolve_step_cases:
  assumes "resolve_step I D p g = Inr (p', g', ev, m)"
  shows "(p' = p \<and> g' = g \<and> m = [] \<and>
            (ev = [] \<and> (status p \<noteq> ALIVE \<or> map_of I (pid p) = None)
             \<or> (\<exists>d. status p = ALIVE \<and> map_of I (pid p) = Some d \<and>
                   (case D (cellKey (fst d) (snd d)) of None \<Rightarrow> False | Some n \<Rightarrow> n > 1) \<and>
                   ev = [Collision [] d])
             \<or> (\<exists>d v. status p = ALIVE \<and> map_of I (pid p) = Some d \<and>
                   \<not> (case D (cellKey (fst d) (snd d)) of None \<Rightarrow> False | Some n \<Rightarrow> n > 1) \<and>
                   grid_get g (fst d) (snd d) = Inr v \<and> v \<noteq> Some EMPTY \<and>
                   ev = [Blocked (pid p) d])))
         \<or> (\<exists>nr nc. status p = ALIVE \<and> map_of I (pid p) = Some (nr, nc) \<and>
               \<not> (case D (cellKey nr nc) of None \<Rightarrow> False | Some n \<Rightarrow> n > 1) \<and>
               grid_get g nr nc = Inr (Some EMPTY) \<and>
               p' = p\<lparr>row := nr, col := nc, score := score p + 1\<rparr> \<and>
               g' = g[nat nr := (g ! nat nr)[nat nc := BLOCKED]] \<and>
               ev = [Move (pid p) (row p, col p) (nr, nc)] \<and>
               m = [(pid p, (row p, col p), (nr, nc))])"
proof (cases "status p = ALIVE")
  case False
  with assms show ?thesis by (simp add: resolve_step_def)
next
  case alive: True
  show ?thesis
  proof (cases "map_of I (pid p)")
    case None
    with assms alive show ?thesis by (simp add: resolve_step_def)
  next
    case (Some d)
    obtain nr nc where d: "d = (nr, nc)" by (cases d)
    show ?thesis
    proof (cases "case D (cellKey nr nc) of None \<Rightarrow> False | Some n \<Rightarrow> n > 1")
      case True
      with assms alive Some d show ?thesis by (simp add: resolve_step_def)
    next
      case nocoll: False
      from assms alive Some d nocoll obtain v where v: "grid_get g nr nc = Inr v"
        by (cases "grid_get g nr nc") (simp_all add: resolve_step_def)
      show ?thesis
      proof (cases "v = Some EMPTY")
        case False
        with assms alive Some d nocoll v show ?thesis by (auto simp: resolve_step_def)
      next
        case True
        with v have "grid_set g nr nc BLOCKED = Inr (g[nat nr := (g ! nat nr)[nat nc := BLOCKED]])"
          by (simp add: grid_set_on_cell)
        with assms alive Some d nocoll v True show ?thesis
          by (simp add: resolve_step_def)
      qed
    qed
  qed
qed

lemma resolve_step_frame:
  assumes "resolve_step I D p g = Inr (p', g', ev, m)"
  shows "pid p' = pid p" "status p' = status p" "isHuman p' = isHuman p"
    "aiStrategy p' = aiStrategy p" "grid_le g g'"
  using resolve_step_cases [OF assms] grid_le_refl [of g] grid_le_set_empty
  by auto

lemma resolve_step_total:
  assumes "status p = ALIVE \<Longrightarrow> (case map_of I (pid p) of None \<Rightarrow> True
             | Some (r, c) \<Rightarrow> 0 \<le> r \<and> r < int (length g))"
  shows "\<exists>res. resolve_step I D p g = Inr res"
proof (cases "status p = ALIVE")
  case False
  then show ?thesis by (simp add: resolve_step_def)
next
  case True
  show ?thesis
  proof (cases "map_of I (pid p)")
    case None
    with True show ?thesis by (simp add: resolve_step_def)
  next
    case (Some d)
    obtain nr nc where d: "d = (nr, nc)" by (cases d)
    with assms True Some have "0 \<le> nr" "nr < int (length g)" by simp_all
    then obtain v where v: "grid_get g nr nc = Inr v"
      using grid_get_total by blast
    show ?thesis
    proof (cases "v = Some EMPTY")
      case False
      with True Some d v show ?thesis by (simp add: resolve_step_def)
    next
      case e: True
      with v have "grid_set g nr nc BLOCKED = Inr (g[nat nr := (g ! nat nr)[nat nc := BLOCKED]])"
        by (simp add: grid_set_on_cell)
      with True Some d v e show ?thesis by (simp add: resolve_step_def)
    qed
  qed
qed

subsection \<open>The loop\<close>

lemma resolve_loop_Cons:
  assumes "resolve_loop I D (p # ps) g = Inr (qs, g', evs, ms)"
  obtains p' g1 ev m ps' evs' ms' where
    "resolve_step I D p g = Inr (p', g1, ev, m)"
    "resolve_loop I D ps g1 = Inr (ps', g', evs', ms')"
    "qs = p' # ps'" "evs = ev @ evs'" "ms = m @ ms'"
  using assms by (auto split: sum.splits)

lemma resolve_loop_frame:
  "resolve_loop I D ps g = Inr (ps', g', evs, ms) \<Longrightarrow>
   length ps' = length ps \<and> map pid ps' = map pid ps \<and> map status ps' = map status ps \<and> grid_le g g'"
proof (induction ps arbitrary: g ps' evs ms)
  case Nil
  then show ?case by (simp add: grid_le_refl)
next
  case (Cons p ps)
  from Cons.prems obtain p' g1 ev m qs evs' ms' where
    st: "resolve_step I D p g = Inr (p', g1, ev, m)" and
    lp: "resolve_loop I D ps g1 = Inr (qs, g', evs', ms')" and
    eq: "ps' = p' # qs"
    by (rule resolve_loop_Cons)
  from Cons.IH [OF lp] resolve_step_frame [OF st] eq show ?case
    by (auto intro: grid_le_trans)
qed

lemma resolve_loop_total:
  "length g = n \<Longrightarrow>
   (\<forall>p\<in>set ps. status p = ALIVE \<longrightarrow>
      (case map_of I (pid p) of None \<Rightarrow> True | Some (r, c) \<Rightarrow> 0 \<le> r \<and> r < int n)) \<Longrightarrow>
   \<exists>res. resolve_loop I D ps g = Inr res"
proof (induction ps arbitrary: g)
  case Nil
  then show ?case by simp
next
  case (Cons p ps)
  from Cons.prems obtain p' g1 ev m where st: "resolve_step I D p g = Inr (p', g1, ev, m)"
    using resolve_step_total [where p=p and I=I and g=g and D=D] by (metis list.set_intros(1) prod_cases4)
  from resolve_step_frame(5) [OF st] Cons.prems(1) have "length g1 = n"
    by (simp add: grid_le_length)
  with Cons.prems(2) have "\<exists>res. resolve_loop I D ps g1 = Inr res"
    by (intro Cons.IH) simp_all
  with st show ?case by (auto split: sum.splits)
qed

lemma resolve_loop_nth:
  "resolve_loop I D ps g = Inr (ps', g', evs, ms) \<Longrightarrow> i < length ps \<Longrightarrow>
   \<exists>gi gi' ev m. grid_le g gi \<and> resolve_step I D (ps ! i) gi = Inr (ps' ! i, gi', ev, m) \<and>
      set ev \<subseteq> set evs"
proof (induction ps arbitrary: g ps' evs ms i)
  case Nil
  then show ?case by simp
next
  case (Cons p ps)
  from Cons.prems(1) obtain p' g1 ev m qs evs' ms' where
    st: "resolve_step I D p g = Inr (p', g1, ev, m)" and
    lp: "resolve_loop I D ps g1 = Inr (qs, g', evs', ms')" and
    eq: "ps' = p' # qs" "evs = ev @ evs'"
    by (rule resolve_loop_Cons)
  show ?case
  proof (cases i)
    case 0
    with st eq show ?thesis
      using grid_le_refl [of g] by auto
  next
    case (Suc j)
    with Cons.prems(2) have "j < length ps" by simp
    from Cons.IH [OF lp this] obtain gi gi' ev' m' where
      "grid_le g1 gi" "resolve_step I D (ps ! j) gi = Inr (qs ! j, gi', ev', m')" "set ev' \<subseteq> set evs'"
      by blast
    with resolve_step_frame(5) [OF st] Suc eq show ?thesis
      by (auto intro: grid_le_trans)
  qed
qed

lemma resolve_loop_event:
  "resolve_loop I D ps g = Inr (ps', g', evs, ms) \<Longrightarrow> e \<in> set evs \<Longrightarrow>
   \<exists>i gi gi' ev m. i < length ps \<and> grid_le g gi \<and>
      resolve_step I D (ps ! i) gi = Inr (ps' ! i, gi', ev, m) \<and> e \<in> set ev"
proof (induction ps arbitrary: g ps' evs ms)
  case Nil
  then show ?case by simp
next
  case (Cons p ps)
  from Cons.prems(1) obtain p' g1 ev m qs evs' ms' where
    st: "resolve_step I D p g = Inr (p', g1, ev, m)" and
    lp: "resolve_loop I D ps g1 = Inr (qs, g', evs', ms')" and
    eq: "ps' = p' # qs" "evs = ev @ evs'"
    by (rule resolve_loop_Cons)
  show ?case
  proof (cases "e \<in> set ev")
    case True
    with st eq show ?thesis
      using grid_le_refl [of g] by (intro exI [of _ 0]) auto
  next
    case False
    with Cons.prems(2) eq have "e \<in> set evs'" by simp
    from Cons.IH [OF lp this] obtain j gi gi' ev' m' where
      "j < length ps" "grid_le g1 gi" "resolve_step I D (ps ! j) gi = Inr (qs ! j, gi', ev', m')" "e \<in> set ev'"
      by blast
    with resolve_step_frame(5) [OF st] eq show ?thesis
      by (intro exI [of _ "Suc j"]) (auto intro: grid_le_trans)
  qed
qed

subsection \<open>Counting events\<close>

lemma move_count_append: "move_count k (xs @ ys) = move_count k xs + move_count k ys"
  by (simp add: move_count_def)

lemma moves_in_append: "moves_in (xs @ ys) = moves_in xs + moves_in ys"
  by (simp add: moves_in_def)

lemma resolve_step_move_count:
  assumes "resolve_step I D p g = Inr (p', g', ev, m)"
  shows "score p' = score p + int (move_count (pid p) ev)"
    and "k \<noteq> pid p \<Longrightarrow> move_count k ev = 0"
    and "row p' = row p \<and> col p' = col p \<or> move_count (pid p) ev = 1"
  using resolve_step_cases [OF assms] by (auto simp: move_count_def)

lemma resolve_loop_score:
  "resolve_loop I D ps g = Inr (ps', g', evs, ms) \<Longrightarrow> distinct (map pid ps) \<Longrightarrow>
   (\<forall>i<length ps. score (ps' ! i) = score (ps ! i) + int (move_count (pid (ps ! i)) evs)) \<and>
   (\<forall>k. k \<notin> pid ` set ps \<longrightarrow> move_count k evs = 0)"
proof (induction ps arbitrary: g ps' evs ms)
  case Nil
  then show ?case by (simp add: move_count_def)
next
  case (Cons p ps)
  from Cons.prems(1) obtain p' g1 ev m qs evs' ms' where
    st: "resolve_step I D p g = Inr (p', g1, ev, m)" and
    lp: "resolve_loop I D ps g1 = Inr (qs, g', evs', ms')" and
    eq: "ps' = p' # qs" "evs = ev @ evs'"
    by (rule resolve_loop_Cons)
  from Cons.prems(2) have d: "distinct (map pid ps)" and notin: "pid p \<notin> pid ` set ps"
    by simp_all
  note IH = Cons.IH [OF lp d]
  have head: "score p' = score p + int (move_count (pid p) evs)"
    using resolve_step_move_count(1) [OF st] IH notin by (simp add: eq move_count_append)
  have tail: "score (qs ! j) = score (ps ! j) + int (move_count (pid (ps ! j)) evs)" if "j < length ps" for j
  proof -
    from that notin have "pid (ps ! j) \<noteq> pid p" by (metis image_eqI nth_mem)
    then have "move_count (pid (ps ! j)) ev = 0"
      by (rule resolve_step_move_count(2) [OF st])
    with IH that show ?thesis by (simp add: eq move_count_append)
  qed
  have other: "move_count k evs = 0" if "k \<notin> pid ` set (p # ps)" for k
    using that IH resolve_step_move_count(2) [OF st, of k] by (simp add: eq move_count_append)
  show ?case
  proof (intro conjI allI impI)
    fix i assume "i < length (p # ps)"
    then show "score (ps' ! i) = score ((p # ps) ! i) + int (move_count (pid ((p # ps) ! i)) evs)"
      using head tail by (cases i) (simp_all add: eq)
  next
    fix k assume "k \<notin> pid ` set (p # ps)"
    then show "move_count k evs = 0" by (rule other)
  qed
qed

lemma resolve_step_collisions:
  assumes "resolve_step I D p g = Inr (p', g', ev, m)"
    and "case D (cellKey (fst d) (snd d)) of None \<Rightarrow> False | Some n \<Rightarrow> n > 1"
  shows "length (filter (\<lambda>e. e = Collision [] d) ev) =
         (if status p = ALIVE \<and> map_of I (pid p) = Some d then 1 else 0)"
  using resolve_step_cases [OF assms(1)] assms(2) by (cases d) auto

lemma resolve_loop_collisions:
  "resolve_loop I D ps g = Inr (ps', g', evs, ms) \<Longrightarrow>
   (case D (cellKey (fst d) (snd d)) of None \<Rightarrow> False | Some n \<Rightarrow> n > 1) \<Longrightarrow>
   length (filter (\<lambda>e. e = Collision [] d) evs) =
   length (filter (\<lambda>p. status p = ALIVE \<and> map_of I (pid p) = Some d) ps)"
proof (induction ps arbitrary: g ps' evs ms)
  case Nil
  then show ?case by simp
next
  case (Cons p ps)
  from Cons.prems(1) obtain p' g1 ev m qs evs' ms' where
    st: "resolve_step I D p g = Inr (p', g1, ev, m)" and
    lp: "resolve_loop I D ps g1 = Inr (qs, g', evs', ms')" and
    eq: "ps' = p' # qs" "evs = ev @ evs'"
    by (rule resolve_loop_Cons)
  from Cons.IH [OF lp Cons.prems(2)] resolve_step_collisions [OF st Cons.prems(2)]
  show ?case by (simp add: eq)
qed

subsection \<open>Every move takes one EMPTY cell\<close>

lemma empties_update:
  assumes "i < length g" "j < length (g ! i)" "g ! i ! j = EMPTY" "w \<noteq> EMPTY"
  shows "Suc (empties (g[i := (g ! i)[j := w]])) = empties g"
proof -
  let ?P = "\<lambda>v. v = EMPTY"
  have row: "Suc (length (filter ?P ((g ! i)[j := w]))) = length (filter ?P (g ! i))"
  proof -
    have a: "g ! i = take j (g ! i) @ (g ! i ! j) # drop (Suc j) (g ! i)"
      using assms(2) by (simp add: id_take_nth_drop)
    have b: "(g ! i)[j := w] = take j (g ! i) @ w # drop (Suc j) (g ! i)"
      using assms(2) by (simp add: upd_conv_take_nth_drop)
    have "length (filter ?P (g ! i)) =
        length (filter ?P (take j (g ! i))) + 1 + length (filter ?P (drop (Suc j) (g ! i)))"
      by (subst a) (simp add: assms(3))
    moreover have "length (filter ?P ((g ! i)[j := w])) =
        length (filter ?P (take j (g ! i))) + length (filter ?P (drop (Suc j) (g ! i)))"
      by (subst b) (simp add: assms(4))
    ultimately show ?thesis by simp
  qed
  have a: "g = take i g @ (g ! i) # drop (Suc i) g"
    using assms(1) by (simp add: id_take_nth_drop)
  have b: "g[i := (g ! i)[j := w]] = take i g @ (g ! i)[j := w] # drop (Suc i) g"
    using assms(1) by (simp add: upd_conv_take_nth_drop)
  have "empties g = length (filter ?P (concat (take i g))) + length (filter ?P (g ! i))
      + length (filter ?P (concat (drop (Suc i) g)))"
    unfolding empties_def by (subst a) simp
  moreover have "empties (g[i := (g ! i)[j := w]]) =
      length (filter ?P (concat (take i g))) + length (filter ?P ((g ! i)[j := w]))
      + length (filter ?P (concat (drop (Suc i) g)))"
    unfolding empties_def by (subst b) simp
  ultimately show ?thesis using row by simp
qed

lemma resolve_step_empties:
  assumes "resolve_step I D p g = Inr (p', g', ev, m)"
  shows "empties g' + moves_in ev = empties g"
  using resolve_step_cases [OF assms]
proof (elim disjE exE conjE)
  fix nr nc
  assume get: "grid_get g nr nc = Inr (Some EMPTY)"
    and g': "g' = g[nat nr := (g ! nat nr)[nat nc := BLOCKED]]"
    and ev: "ev = [Move (pid p) (row p, col p) (nr, nc)]"
  from get have "nat nr < length g" "nat nc < length (g ! nat nr)" "g ! nat nr ! nat nc = EMPTY"
    by (simp_all add: grid_get_Some)
  then have "Suc (empties g') = empties g"
    unfolding g' by (intro empties_update) (simp_all add: BLOCKED_def EMPTY_def)
  then show ?thesis by (simp add: ev moves_in_def)
qed (simp_all add: moves_in_def)

lemma resolve_loop_empties:
  "resolve_loop I D ps g = Inr (ps', g', evs, ms) \<Longrightarrow> empties g' + moves_in evs = empties g"
proof (induction ps arbitrary: g ps' evs ms)
  case Nil
  then show ?case by (simp add: moves_in_def)
next
  case (Cons p ps)
  from Cons.prems(1) obtain p' g1 ev m qs evs' ms' where
    st: "resolve_step I D p g = Inr (p', g1, ev, m)" and
    lp: "resolve_loop I D ps g1 = Inr (qs, g', evs', ms')" and
    eq: "ps' = p' # qs" "evs = ev @ evs'"
    by (rule resolve_loop_Cons)
  from Cons.IH [OF lp] resolve_step_empties [OF st] show ?case
    by (simp add: eq moves_in_append)
qed

subsection \<open>resolveTurn\<close>

lemma resolveTurn_Inr:
  assumes "resolveTurn s = Inr (s', evs)"
  obtains ps' g' ms where
    "resolve_loop (intended_of s) (destCount_of s) (players s) (visited s) = Inr (ps', g', evs, ms)"
    "s' = s\<lparr>players := ps', visited := g', history := history s @ [(turn s, ms)],
             pendingMoves := Map.empty, turn := turn s + 1, phase := EVAL\<rparr>"
  using assms
  by (auto simp: resolveTurn_def Let_def intended_of_def destCount_of_def split: sum.splits)

lemma resolveTurn_loop:
  assumes "resolve_loop (intended_of s) (destCount_of s) (players s) (visited s) = Inr (ps', g', evs, ms)"
  shows "resolveTurn s =
     Inr (s\<lparr>players := ps', visited := g', history := history s @ [(turn s, ms)],
             pendingMoves := Map.empty, turn := turn s + 1, phase := EVAL\<rparr>, evs)"
  using assms by (simp add: resolveTurn_def Let_def intended_of_def destCount_of_def)

lemma map_of_intended_of:
  "map_of (intended_of s) k =
     (if \<exists>p\<in>set (players s). status p = ALIVE \<and> pid p = k then pendingMoves s k else None)"
proof (cases "pendingMoves s k")
  case None
  then show ?thesis by (simp add: intended_of_def map_of_collect_intended)
next
  case (Some d)
  then show ?thesis by (auto simp: intended_of_def map_of_collect_intended image_iff)
qed

lemma intended_of_alive:
  "p \<in> set (players s) \<Longrightarrow> status p = ALIVE \<Longrightarrow> map_of (intended_of s) (pid p) = pendingMoves s (pid p)"
  by (auto simp: map_of_intended_of)

lemma distinct_intended_of: "distinct (map fst (intended_of s))"
  by (simp add: intended_of_def distinct_collect_intended)

lemma resolveTurn_total:
  assumes "intents_in_rows s"
  shows "\<exists>s' evs. resolveTurn s = Inr (s', evs)"
proof -
  have "\<forall>p\<in>set (players s). status p = ALIVE \<longrightarrow>
      (case map_of (intended_of s) (pid p) of None \<Rightarrow> True
       | Some (r, c) \<Rightarrow> 0 \<le> r \<and> r < int (length (visited s)))"
    using assms by (auto simp: intents_in_rows_def intended_of_alive)
  from resolve_loop_total [OF refl this]
  obtain ps' g' evs ms where
    "resolve_loop (intended_of s) (destCount_of s) (players s) (visited s) = Inr (ps', g', evs, ms)"
    by (metis prod_cases4)
  from resolveTurn_loop [OF this] show ?thesis by blast
qed

lemma destCount_of_collides:
  assumes "p \<in> set (players s)" "q \<in> set (players s)" "status p = ALIVE" "status q = ALIVE"
    and "pid p \<noteq> pid q"
    and "pendingMoves s (pid p) = Some (r, c)" "pendingMoves s (pid q) = Some (r, c)"
  shows "case destCount_of s (cellKey r c) of None \<Rightarrow> False | Some n \<Rightarrow> n > 1"
proof -
  let ?I = "intended_of s"
  have "map_of ?I (pid p) = Some (r, c)" "map_of ?I (pid q) = Some (r, c)"
    using assms by (simp_all add: intended_of_alive)
  then have "(pid p, (r, c)) \<in> set ?I" "(pid q, (r, c)) \<in> set ?I"
    by (simp_all add: map_of_SomeD)
  then have "2 \<le> length (filter (\<lambda>e. snd e = (r, c)) ?I)"
    using assms(5) by (intro two_in_filter [of "(pid p, (r, c))" _ "(pid q, (r, c))"]) simp_all
  then show ?thesis
    by (auto simp: destCount_of_def tally_empty Let_def)
qed

lemma resolve_loop_dropped:
  assumes lp: "resolve_loop I D ps g = Inr (ps', g', evs, ms)"
    and i: "i < length ps"
    and dest: "map_of I (pid (ps ! i)) = Some (r, c)"
    and cell: "grid_get g r c = Inr v" "v \<noteq> Some EMPTY"
  shows "ps' ! i = ps ! i" and "move_count (pid (ps ! i)) evs = 0"
proof -
  from resolve_loop_nth [OF lp i] obtain gi gi' ev m where
    le: "grid_le g gi" and st: "resolve_step I D (ps ! i) gi = Inr (ps' ! i, gi', ev, m)"
    by blast
  from grid_le_get [OF le cell] have "grid_get gi r c \<noteq> Inr (Some EMPTY)"
    using cell(2) by simp
  with resolve_step_cases [OF st] dest show "ps' ! i = ps ! i"
    by auto
  have "\<not> (case e of Move j fr to \<Rightarrow> j = pid (ps ! i) | _ \<Rightarrow> False)" if "e \<in> set evs" for e
  proof
    assume mv: "case e of Move j fr to \<Rightarrow> j = pid (ps ! i) | _ \<Rightarrow> False"
    from resolve_loop_event [OF lp that] obtain j gj gj' ev' m' where
      j: "j < length ps" and le': "grid_le g gj"
      and st': "resolve_step I D (ps ! j) gj = Inr (ps' ! j, gj', ev', m')" and e: "e \<in> set ev'"
      by blast
    from grid_le_get [OF le' cell] have ne: "grid_get gj r c \<noteq> Inr (Some EMPTY)"
      using cell(2) by simp
    from resolve_step_cases [OF st'] e mv dest ne show False
      by auto
  qed
  then show "move_count (pid (ps ! i)) evs = 0"
    by (simp add: move_count_def filter_empty_conv)
qed

lemma resolve_step_subject:
  assumes "resolve_step I D p g = Inr (p', g', ev, m)" "e \<in> set ev"
  shows "case e of Move j fr to \<Rightarrow> j = pid p \<and> status p = ALIVE
         | Blocked j d \<Rightarrow> j = pid p \<and> status p = ALIVE
         | Collision js d \<Rightarrow> status p = ALIVE \<and> map_of I (pid p) = Some d
         | _ \<Rightarrow> False"
  using resolve_step_cases [OF assms(1)] assms(2) by auto

lemma resolveTurn_pending_cong:
  assumes "\<And>p. p \<in> set (players s) \<Longrightarrow> status p = ALIVE \<Longrightarrow> pm (pid p) = pendingMoves s (pid p)"
  shows "resolveTurn (s\<lparr>pendingMoves := pm\<rparr>) = resolveTurn s"
proof -
  have "collect_intended pm (filter (\<lambda>p. status p = ALIVE) (players s)) [] =
        collect_intended (pendingMoves s) (filter (\<lambda>p. status p = ALIVE) (players s)) []"
    by (rule collect_intended_cong) (simp add: assms)
  then show ?thesis
    by (simp add: resolveTurn_def Let_def split: sum.splits)
qed

subsection \<open>When resolveTurn returns\<close>

lemma two_keys_in_filter:
  assumes "2 \<le> length (filter P xs)" "distinct (map fst xs)"
  obtains x y where "x \<in> set xs" "y \<in> set xs" "P x" "P y" "fst x \<noteq> fst y"
proof -
  from assms(1) obtain a b rest where f: "filter P xs = a # b # rest"
    by (cases "filter P xs"; cases "tl (filter P xs)") auto
  from assms(2) have "distinct (map fst (filter P xs))"
    by (rule distinct_map_filter)
  with f have ne: "fst a \<noteq> fst b" by simp
  from f have "a \<in> set (filter P xs)" "b \<in> set (filter P xs)" by simp_all
  then have "a \<in> set xs" "b \<in> set xs" "P a" "P b" by simp_all
  with ne that show ?thesis by blast
qed

lemma destCount_of_contested:
  "(case destCount_of s (cellKey r c) of None \<Rightarrow> False | Some n \<Rightarrow> n > 1) \<longleftrightarrow> contested s (r, c)"
proof
  assume "contested s (r, c)"
  then obtain p q where "p \<in> set (players s)" "q \<in> set (players s)" "status p = ALIVE"
    "status q = ALIVE" "pid p \<noteq> pid q" "pendingMoves s (pid p) = Some (r, c)"
    "pendingMoves s (pid q) = Some (r, c)"
    by (auto simp: contested_def)
  then show "case destCount_of s (cellKey r c) of None \<Rightarrow> False | Some n \<Rightarrow> n > 1"
    by (rule destCount_of_collides)
next
  let ?I = "intended_of s"
  assume "case destCount_of s (cellKey r c) of None \<Rightarrow> False | Some n \<Rightarrow> n > 1"
  then have "2 \<le> length (filter (\<lambda>e. snd e = (r, c)) ?I)"
    by (auto simp: destCount_of_def tally_empty Let_def split: if_splits)
  from two_keys_in_filter [OF this distinct_intended_of] obtain x y where
    xy: "x \<in> set ?I" "y \<in> set ?I" "snd x = (r, c)" "snd y = (r, c)" "fst x \<noteq> fst y"
    by blast
  have look: "map_of ?I (fst e) = Some (snd e)" if "e \<in> set ?I" for e
    using that distinct_intended_of [of s] by (metis map_of_is_SomeI prod.collapse)
  from look [OF xy(1)] xy(3) obtain p where
    p: "p \<in> set (players s)" "status p = ALIVE" "pid p = fst x" "pendingMoves s (fst x) = Some (r, c)"
    by (auto simp: map_of_intended_of split: if_splits)
  from look [OF xy(2)] xy(4) obtain q where
    q: "q \<in> set (players s)" "status q = ALIVE" "pid q = fst y" "pendingMoves s (fst y) = Some (r, c)"
    by (auto simp: map_of_intended_of split: if_splits)
  from p q xy(5) show "contested s (r, c)"
    unfolding contested_def by (intro bexI [of _ p] bexI [of _ q]) simp_all
qed

lemma resolve_step_returns:
  "(\<exists>res. resolve_step I D p g = Inr res) \<longleftrightarrow> step_in_rows I D (length g) p"
proof (cases "status p = ALIVE")
  case False
  then show ?thesis by (simp add: resolve_step_def step_in_rows_def)
next
  case alive: True
  show ?thesis
  proof (cases "map_of I (pid p)")
    case None
    with alive show ?thesis by (simp add: resolve_step_def step_in_rows_def)
  next
    case (Some d)
    obtain nr nc where d: "d = (nr, nc)" by (cases d)
    show ?thesis
    proof (cases "case D (cellKey nr nc) of None \<Rightarrow> False | Some k \<Rightarrow> k > 1")
      case True
      with alive Some d show ?thesis by (simp add: resolve_step_def step_in_rows_def)
    next
      case nocoll: False
      show ?thesis
      proof (cases "0 \<le> nr \<and> nr < int (length g)")
        case False
        then have "grid_get g nr nc = Inl TypeError"
          by (simp add: grid_get_Inl)
        with alive Some d nocoll False show ?thesis
          by (simp add: resolve_step_def step_in_rows_def)
      next
        case True
        then have "\<exists>res. resolve_step I D p g = Inr res"
          using alive Some d by (intro resolve_step_total) simp
        with alive Some d nocoll True show ?thesis
          by (simp add: step_in_rows_def)
      qed
    qed
  qed
qed

lemma resolve_loop_returns:
  "length g = n \<Longrightarrow>
   (\<exists>res. resolve_loop I D ps g = Inr res) \<longleftrightarrow> (\<forall>p\<in>set ps. step_in_rows I D n p)"
proof (induction ps arbitrary: g)
  case Nil
  show ?case by simp
next
  case (Cons p ps)
  show ?case
  proof (cases "resolve_step I D p g")
    case (Inl e)
    then have "\<not> (\<exists>res. resolve_step I D p g = Inr res)" by simp
    with resolve_step_returns [of I D p g] have "\<not> step_in_rows I D (length g) p" by blast
    with Cons.prems have "\<not> step_in_rows I D n p" by simp
    with Inl show ?thesis by simp
  next
    case (Inr res)
    obtain p' g1 ev m where res: "res = (p', g1, ev, m)" by (cases res)
    from Inr have "\<exists>res. resolve_step I D p g = Inr res" by blast
    with resolve_step_returns [of I D p g] have "step_in_rows I D (length g) p" by blast
    with Cons.prems have ok: "step_in_rows I D n p" by simp
    from resolve_step_frame(5) [OF Inr [unfolded res]] Cons.prems have "length g1 = n"
      by (simp add: grid_le_length)
    from Cons.IH [OF this] Inr res ok show ?thesis
      by (auto split: sum.splits)
  qed
qed

lemma step_in_rows_of_state:
  assumes "p \<in> set (players s)"
  shows "step_in_rows (intended_of s) (destCount_of s) (length (visited s)) p \<longleftrightarrow>
     (status p = ALIVE \<longrightarrow>
        (case pendingMoves s (pid p) of
           None \<Rightarrow> True
         | Some (r, c) \<Rightarrow> contested s (r, c) \<or> (0 \<le> r \<and> r < int (length (visited s)))))"
proof (cases "status p = ALIVE")
  case False
  then show ?thesis by (simp add: step_in_rows_def)
next
  case True
  with assms have "map_of (intended_of s) (pid p) = pendingMoves s (pid p)"
    by (rule intended_of_alive)
  with True show ?thesis
    by (simp add: step_in_rows_def destCount_of_contested split: option.splits)
qed

lemma resolveTurn_returns:
  "(\<exists>s' evs. resolveTurn s = Inr (s', evs)) \<longleftrightarrow> lone_intents_in_rows s"
proof -
  have "(\<exists>s' evs. resolveTurn s = Inr (s', evs)) \<longleftrightarrow>
        (\<exists>res. resolve_loop (intended_of s) (destCount_of s) (players s) (visited s) = Inr res)"
  proof
    assume "\<exists>s' evs. resolveTurn s = Inr (s', evs)"
    then obtain s' evs where "resolveTurn s = Inr (s', evs)" by blast
    then show "\<exists>res. resolve_loop (intended_of s) (destCount_of s) (players s) (visited s) = Inr res"
      by (rule resolveTurn_Inr) blast
  next
    assume "\<exists>res. resolve_loop (intended_of s) (destCount_of s) (players s) (visited s) = Inr res"
    then obtain ps' g' evs ms where
      "resolve_loop (intended_of s) (destCount_of s) (players s) (visited s) = Inr (ps', g', evs, ms)"
      by (metis prod_cases4)
    from resolveTurn_loop [OF this] show "\<exists>s' evs. resolveTurn s = Inr (s', evs)" by blast
  qed
  also have "\<dots> \<longleftrightarrow> (\<forall>p\<in>set (players s).
      step_in_rows (intended_of s) (destCount_of s) (length (visited s)) p)"
    by (rule resolve_loop_returns [OF refl])
  also have "\<dots> \<longleftrightarrow> lone_intents_in_rows s"
    unfolding lone_intents_in_rows_def by (simp add: step_in_rows_of_state)
  finally show ?thesis .
qed

subsection \<open>Scenario A and runs from it\<close>

lemma init_players_A: "init_players 2 2 [(1,1),(6,6)] 0 = Inr [playerA0, playerA1]"
  by (simp add: init_players.simps js_index_def playerA0_def playerA1_def)

lemma initState_A: "initState 8 42 2 0 rulesA = Inr stateA"
  apply (simp add: initState_def Let_def defaultStartPositions_def js_slice0_def init_players_A
   merge_rules_def rulesA_def placeObstacles_def place_loop.simps makeRng_def)
  apply (simp add: playerA0_def playerA1_def makeGrid_def grid_set_def js_index_def BLOCKED_def EMPTY_def
    numeral_eq_Suc stateA_def gridA_def placeObstacles_def place_loop.simps)
  done

lemmas stateA_simps = stateA_def playerA0_def playerA1_def gridA_def
lemmas resolve_eval = resolveTurn_def submitMove_def Let_def resolve_step_def cellKey_eq_iff
  grid_get_def grid_set_def js_index_def EMPTY_def BLOCKED_def

lemma resolve_teleport:
  "resolveTurn (submitMove stateA 0 5 5) =
   Inr (stateA\<lparr>players := [playerA0\<lparr>row := 5, col := 5, score := 2\<rparr>, playerA1],
          visited := gridA[5 := (gridA ! 5)[5 := 1]],
          history := [(0, [(0, (1, 1), (5, 5))])], turn := 1, phase := EVAL\<rparr>,
        [Move 0 (1, 1) (5, 5)])"
  by (simp add: resolve_eval stateA_simps)

lemma resolve_row_outside: "resolveTurn (submitMove stateA 0 8 0) = Inl TypeError"
  by (simp add: resolve_eval stateA_simps)

lemma resolve_own_cell:
  "resolveTurn (submitMove stateA 1 6 6) =
   Inr (stateA\<lparr>history := [(0, [])], turn := 1, phase := EVAL\<rparr>, [Blocked 1 (6, 6)])"
  by (simp add: resolve_eval stateA_simps)

lemma resolve_both_32:
  "resolveTurn (submitMove (submitMove stateA 0 3 2) 1 3 2) =
   Inr (stateA\<lparr>history := [(0, [])], turn := 1, phase := EVAL\<rparr>,
        [Collision [] (3, 2), Collision [] (3, 2)])"
  by (simp add: resolve_eval stateA_simps)

lemma resolve_absent_player:
  "resolveTurn (submitMove stateA 7 3 2) =
   Inr (stateA\<lparr>history := [(0, [])], turn := 1, phase := EVAL\<rparr>, [])"
  by (simp add: resolve_eval stateA_simps)

lemma knight_offsets_11: "(5, 5) \<notin> set (map (\<lambda>(dr, dc). (1 + dr, 1 + dc)) KNIGHT_MOVES)"
  by (simp add: KNIGHT_MOVES_def)

lemmas stateB_simps = stateB_def playerB0_def playerB1_def

lemma initState_B: "initState 2 42 2 0 rulesA = Inr stateB"
proof -
  have p: "init_players 2 2 [(0, 0), (1, 1)] 0 = Inr [playerB0, playerB1]"
    by (simp add: init_players.simps js_index_def stateB_simps)
  have g: "makeGrid 2 = [[0, 0], [0, 0]]"
    by (simp add: makeGrid_def EMPTY_def numeral_eq_Suc)
  have x: "makeRng 42 = 42"
    by (simp add: makeRng_def)
  show ?thesis
    by (simp add: initState_def Let_def defaultStartPositions_def js_slice0_def merge_rules_def
        rulesA_def placeObstacles_def place_loop.simps p g x stateB_simps
        grid_set_def js_index_def BLOCKED_def)
qed

lemmas legal_eval = getLegalMoves_def KNIGHT_MOVES_def inBounds_def grid_get_def js_index_def
  EMPTY_def

section \<open>Claims about move resolution\<close>

text \<open>
  Claim C1, as the code has it.  \<open>resolveTurn\<close> does not compare a destination with the
  knight offsets and does not test it against the board size; it reads the grid cell.
  A pending destination of a living player whose cell is not EMPTY in the grid, or whose
  column lies outside its row of the grid, is dropped: the player keeps row, column and
  score and no move event has it as subject.  Provided every pending destination of a
  living player names a row of the grid, \<open>resolveTurn\<close> raises no exception.
\<close>

theorem C1_occupied_destination_dropped:
  assumes "intents_in_rows s"
    and "i < length (players s)" and "status (players s ! i) = ALIVE"
    and "pendingMoves s (pid (players s ! i)) = Some (r, c)"
    and "grid_get (visited s) r c = Inr v" and "v \<noteq> Some EMPTY"
  shows "\<exists>s' evs. resolveTurn s = Inr (s', evs) \<and>
           length (players s') = length (players s) \<and>
           players s' ! i = players s ! i \<and>
           move_count (pid (players s ! i)) evs = 0"
proof -
  from resolveTurn_total [OF assms(1)] obtain s' evs where res: "resolveTurn s = Inr (s', evs)"
    by blast
  then obtain ps' g' ms where
    lp: "resolve_loop (intended_of s) (destCount_of s) (players s) (visited s) = Inr (ps', g', evs, ms)"
    and s': "s' = s\<lparr>players := ps', visited := g', history := history s @ [(turn s, ms)],
             pendingMoves := Map.empty, turn := turn s + 1, phase := EVAL\<rparr>"
    by (rule resolveTurn_Inr)
  have dest: "map_of (intended_of s) (pid (players s ! i)) = Some (r, c)"
    using assms(2-4) by (simp add: intended_of_alive)
  from resolve_loop_dropped [OF lp assms(2) dest assms(5,6)] resolve_loop_frame [OF lp] res s'
  show ?thesis by simp
qed

theorem C1_witness:
  "intents_in_rows (submitMove stateA 1 6 6) \<and>
   status (players (submitMove stateA 1 6 6) ! 1) = ALIVE \<and>
   grid_get (visited (submitMove stateA 1 6 6)) 6 6 = Inr (Some 1) \<and>
   (\<exists>s' evs. resolveTurn (submitMove stateA 1 6 6) = Inr (s', evs) \<and>
      length (players s') = 2 \<and> players s' ! 1 = playerA1 \<and> move_count 1 evs = 0)"
proof -
  let ?s = "submitMove stateA 1 6 6"
  have a: "intents_in_rows ?s"
    by (simp add: intents_in_rows_def submitMove_def stateA_simps)
  have b: "1 < length (players ?s)" "status (players ?s ! 1) = ALIVE"
    "pendingMoves ?s (pid (players ?s ! 1)) = Some (6, 6)"
    "grid_get (visited ?s) 6 6 = Inr (Some 1)" "Some (1::int) \<noteq> Some EMPTY"
    by (simp_all add: submitMove_def stateA_simps grid_get_def js_index_def EMPTY_def)
  have d: "length (players ?s) = 2" "players ?s ! 1 = playerA1" "pid playerA1 = 1"
    by (simp_all add: submitMove_def stateA_simps)
  have "\<exists>s' evs. resolveTurn ?s = Inr (s', evs) \<and>
           length (players s') = length (players ?s) \<and>
           players s' ! 1 = players ?s ! 1 \<and>
           move_count (pid (players ?s ! 1)) evs = 0"
    by (rule C1_occupied_destination_dropped [OF a b])
  then have c: "\<exists>s' evs. resolveTurn ?s = Inr (s', evs) \<and>
      length (players s') = 2 \<and> players s' ! 1 = playerA1 \<and> move_count 1 evs = 0"
    by (simp only: d)
  show ?thesis
    using a b(2) b(4) c by (intro conjI)
qed

text \<open>
  The claim as stated fails.  In the initial state of scenario A, player 0 stands on
  (1,1); (5,5) is no knight move from there, and the intent is executed.  The intent for
  row 8 of the 8x8 board makes \<open>resolveTurn\<close> raise a TypeError.
\<close>

theorem C1_counterexample:
  "initState 8 42 2 0 rulesA = Inr stateA \<and>
   (5, 5) \<notin> set (map (\<lambda>(dr, dc). (1 + dr, 1 + dc)) KNIGHT_MOVES) \<and>
   resolveTurn (submitMove stateA 0 5 5) =
     Inr (stateA\<lparr>players := [playerA0\<lparr>row := 5, col := 5, score := 2\<rparr>, playerA1],
            visited := gridA[5 := (gridA ! 5)[5 := 1]],
            history := [(0, [(0, (1, 1), (5, 5))])], turn := 1, phase := EVAL\<rparr>,
          [Move 0 (1, 1) (5, 5)]) \<and>
   \<not> inBounds 8 0 8 \<and>
   resolveTurn (submitMove stateA 0 8 0) = Inl TypeError"
  using initState_A knight_offsets_11 resolve_teleport resolve_row_outside
  by (simp add: inBounds_def)

text \<open>
  Claim C2, as the code has it.  Let living players of two different ids have pending
  intents for the same cell.  \<open>resolveTurn\<close> returns exactly when every pending destination
  of a living player that is not contested names a row of the grid (otherwise it raises a
  TypeError).  Whenever it returns, it has pushed one collision event for the cell per
  colliding living player (so at least two, not one), none of these players is changed,
  and the resulting phase is EVALUATE.
\<close>

theorem C2_one_collision_event_per_colliding_player:
  assumes "p \<in> set (players s)" and "q \<in> set (players s)"
    and "status p = ALIVE" and "status q = ALIVE" and "pid p \<noteq> pid q"
    and "pendingMoves s (pid p) = Some (r, c)" and "pendingMoves s (pid q) = Some (r, c)"
  shows "((\<exists>s' evs. resolveTurn s = Inr (s', evs)) \<longleftrightarrow> lone_intents_in_rows s) \<and>
         (\<forall>s' evs. resolveTurn s = Inr (s', evs) \<longrightarrow>
           length (filter (\<lambda>e. e = Collision [] (r, c)) evs) =
             length (filter (\<lambda>p. status p = ALIVE \<and> pendingMoves s (pid p) = Some (r, c)) (players s)) \<and>
           2 \<le> length (filter (\<lambda>e. e = Collision [] (r, c)) evs) \<and>
           length (players s') = length (players s) \<and>
           (\<forall>i<length (players s).
              status (players s ! i) = ALIVE \<and> pendingMoves s (pid (players s ! i)) = Some (r, c)
              \<longrightarrow> players s' ! i = players s ! i) \<and>
           phase s' = EVAL)"
proof -
  let ?I = "intended_of s" and ?D = "destCount_of s"
  let ?hit = "\<lambda>p. status p = ALIVE \<and> pendingMoves s (pid p) = Some (r, c)"
  have rest: "length (filter (\<lambda>e. e = Collision [] (r, c)) evs) = length (filter ?hit (players s)) \<and>
           2 \<le> length (filter (\<lambda>e. e = Collision [] (r, c)) evs) \<and>
           length (players s') = length (players s) \<and>
           (\<forall>i<length (players s). ?hit (players s ! i) \<longrightarrow> players s' ! i = players s ! i) \<and>
           phase s' = EVAL"
    if res: "resolveTurn s = Inr (s', evs)" for s' evs
  proof -
    from res obtain ps' g' ms where
      lp: "resolve_loop ?I ?D (players s) (visited s) = Inr (ps', g', evs, ms)"
      and s': "s' = s\<lparr>players := ps', visited := g', history := history s @ [(turn s, ms)],
               pendingMoves := Map.empty, turn := turn s + 1, phase := EVAL\<rparr>"
      by (rule resolveTurn_Inr)
    have coll: "case ?D (cellKey (fst (r, c)) (snd (r, c))) of None \<Rightarrow> False | Some n \<Rightarrow> n > 1"
      using destCount_of_collides [OF assms] by simp
    have "filter (\<lambda>p. status p = ALIVE \<and> map_of ?I (pid p) = Some (r, c)) (players s) =
          filter ?hit (players s)"
      by (rule filter_cong) (auto simp: intended_of_alive)
    with resolve_loop_collisions [OF lp coll]
    have count: "length (filter (\<lambda>e. e = Collision [] (r, c)) evs) = length (filter ?hit (players s))"
      by simp
    have "2 \<le> length (filter ?hit (players s))"
      using assms by (intro two_in_filter [of p _ q]) auto
    with count have two: "2 \<le> length (filter (\<lambda>e. e = Collision [] (r, c)) evs)"
      by simp
    have keep: "players s' ! i = players s ! i"
      if i: "i < length (players s)" and hit: "?hit (players s ! i)" for i
    proof -
      from resolve_loop_nth [OF lp i] obtain gi gi' ev m where
        st: "resolve_step ?I ?D (players s ! i) gi = Inr (ps' ! i, gi', ev, m)"
        by blast
      have "map_of ?I (pid (players s ! i)) = Some (r, c)"
        using i hit by (simp add: intended_of_alive)
      with resolve_step_cases [OF st] coll have "ps' ! i = players s ! i"
        by auto
      then show ?thesis by (simp add: s')
    qed
    from resolve_loop_frame [OF lp] have "length (players s') = length (players s)" "phase s' = EVAL"
      by (simp_all add: s')
    with count two keep show ?thesis
      by blast
  qed
  from resolveTurn_returns [of s] rest show ?thesis
    by blast
qed

text \<open>
  Both players of scenario A submit (3,2); and both submit (8,0), a cell of no row of the
  8x8 grid, where the collision is found before the grid is read.
\<close>

theorem C2_witness:
  "lone_intents_in_rows (submitMove (submitMove stateA 0 3 2) 1 3 2) \<and>
   (\<exists>s' evs. resolveTurn (submitMove (submitMove stateA 0 3 2) 1 3 2) = Inr (s', evs) \<and>
      length (filter (\<lambda>e. e = Collision [] (3, 2)) evs) = 2 \<and>
      players s' ! 0 = playerA0 \<and> players s' ! 1 = playerA1 \<and> phase s' = EVAL) \<and>
   \<not> intents_in_rows (submitMove (submitMove stateA 0 8 0) 1 8 0) \<and>
   lone_intents_in_rows (submitMove (submitMove stateA 0 8 0) 1 8 0) \<and>
   (\<exists>s' evs. resolveTurn (submitMove (submitMove stateA 0 8 0) 1 8 0) = Inr (s', evs) \<and>
      length (filter (\<lambda>e. e = Collision [] (8, 0)) evs) = 2 \<and>
      players s' ! 0 = playerA0 \<and> players s' ! 1 = playerA1 \<and> phase s' = EVAL)"
proof -
  have one: "lone_intents_in_rows (submitMove (submitMove stateA 0 r c) 1 r c) \<and>
    (\<exists>s' evs. resolveTurn (submitMove (submitMove stateA 0 r c) 1 r c) = Inr (s', evs) \<and>
      length (filter (\<lambda>e. e = Collision [] (r, c)) evs) = 2 \<and>
      players s' ! 0 = playerA0 \<and> players s' ! 1 = playerA1 \<and> phase s' = EVAL)" for r c
  proof -
    let ?s = "submitMove (submitMove stateA 0 r c) 1 r c"
    have b: "playerA0 \<in> set (players ?s)" "playerA1 \<in> set (players ?s)"
      "status playerA0 = ALIVE" "status playerA1 = ALIVE" "pid playerA0 \<noteq> pid playerA1"
      "pendingMoves ?s (pid playerA0) = Some (r, c)" "pendingMoves ?s (pid playerA1) = Some (r, c)"
      by (simp_all add: submitMove_def stateA_simps)
    have d: "length (filter (\<lambda>p. status p = ALIVE \<and> pendingMoves ?s (pid p) = Some (r, c)) (players ?s)) = 2"
      "players ?s ! 0 = playerA0" "players ?s ! 1 = playerA1" "length (players ?s) = 2"
      by (simp_all add: submitMove_def stateA_simps)
    have "contested ?s (r, c)"
      unfolding contested_def using b by (intro bexI [of _ playerA0] bexI [of _ playerA1]) simp_all
    then have l: "lone_intents_in_rows ?s"
      by (simp add: lone_intents_in_rows_def submitMove_def stateA_simps)
    note c2 = C2_one_collision_event_per_colliding_player [OF b]
    from c2 l obtain s' evs where res: "resolveTurn ?s = Inr (s', evs)"
      by blast
    with c2 have n: "length (filter (\<lambda>e. e = Collision [] (r, c)) evs) =
             length (filter (\<lambda>p. status p = ALIVE \<and> pendingMoves ?s (pid p) = Some (r, c)) (players ?s))"
      and keep: "\<forall>i<length (players ?s).
              status (players ?s ! i) = ALIVE \<and> pendingMoves ?s (pid (players ?s ! i)) = Some (r, c)
              \<longrightarrow> players s' ! i = players ?s ! i"
      and ph: "phase s' = EVAL"
      by blast+
    from keep [rule_format, of 0] keep [rule_format, of 1] b d
    have "players s' ! 0 = playerA0" "players s' ! 1 = playerA1"
      by simp_all
    with res n d(1) ph l show ?thesis
      by auto
  qed
  have "\<not> intents_in_rows (submitMove (submitMove stateA 0 8 0) 1 8 0)"
    by (simp add: intents_in_rows_def submitMove_def stateA_simps)
  with one [of 3 2] one [of 8 0] show ?thesis
    by (intro conjI) simp_all
qed

text \<open>
  The claim as stated fails: when both players of scenario A submit (3,2), two collision
  events for (3,2) come out, one per player.
\<close>

theorem C2_counterexample:
  "initState 8 42 2 0 rulesA = Inr stateA \<and>
   resolveTurn (submitMove (submitMove stateA 0 3 2) 1 3 2) =
     Inr (stateA\<lparr>history := [(0, [])], turn := 1, phase := EVAL\<rparr>,
          [Collision [] (3, 2), Collision [] (3, 2)]) \<and>
   length (filter (\<lambda>e. e = Collision [] (3, 2)) [Collision [] (3, 2), Collision [] (3, 2)]) = 2"
  using initState_A resolve_both_32 by simp

text \<open>
  Claim C10.  Let no living player of the state have the id \<open>k\<close> (the player is absent or
  not ALIVE).  \<open>submitMove\<close> records the intent for \<open>k\<close> all the same; \<open>resolveTurn\<close> then
  returns exactly what it returns for the state without this submission, so the intent
  enters no collision tally; and in its result no pending intent is left, no player with id
  \<open>k\<close> is changed, and no move or blocked event has \<open>k\<close> as subject.
\<close>

theorem C10_intent_without_living_player_ignored:
  assumes "\<forall>p\<in>set (players s). pid p = k \<longrightarrow> status p \<noteq> ALIVE"
  shows "pendingMoves (submitMove s k r c) k = Some (r, c) \<and>
         resolveTurn (submitMove s k r c) = resolveTurn s \<and>
         (\<forall>s' evs. resolveTurn (submitMove s k r c) = Inr (s', evs) \<longrightarrow>
            pendingMoves s' = Map.empty \<and>
            length (players s') = length (players s) \<and>
            (\<forall>i<length (players s). pid (players s ! i) = k \<longrightarrow> players s' ! i = players s ! i) \<and>
            (\<forall>e\<in>set evs. case e of Move j fr to \<Rightarrow> j \<noteq> k | Blocked j d \<Rightarrow> j \<noteq> k | _ \<Rightarrow> True))"
proof -
  have rec: "pendingMoves (submitMove s k r c) k = Some (r, c)"
    by (simp add: submitMove_def)
  have eq: "resolveTurn (submitMove s k r c) = resolveTurn s"
  proof -
    have "submitMove s k r c = s\<lparr>pendingMoves := (pendingMoves s)(k \<mapsto> (r, c))\<rparr>"
      by (simp add: submitMove_def)
    moreover have "resolveTurn (s\<lparr>pendingMoves := (pendingMoves s)(k \<mapsto> (r, c))\<rparr>) = resolveTurn s"
      using assms by (intro resolveTurn_pending_cong) auto
    ultimately show ?thesis by simp
  qed
  have rest: "pendingMoves s' = Map.empty \<and>
            length (players s') = length (players s) \<and>
            (\<forall>i<length (players s). pid (players s ! i) = k \<longrightarrow> players s' ! i = players s ! i) \<and>
            (\<forall>e\<in>set evs. case e of Move j fr to \<Rightarrow> j \<noteq> k | Blocked j d \<Rightarrow> j \<noteq> k | _ \<Rightarrow> True)"
    if "resolveTurn (submitMove s k r c) = Inr (s', evs)" for s' evs
  proof (intro conjI)
  from that eq have res: "resolveTurn s = Inr (s', evs)" by simp
  then obtain ps' g' ms where
    lp: "resolve_loop (intended_of s) (destCount_of s) (players s) (visited s) = Inr (ps', g', evs, ms)"
    and s': "s' = s\<lparr>players := ps', visited := g', history := history s @ [(turn s, ms)],
             pendingMoves := Map.empty, turn := turn s + 1, phase := EVAL\<rparr>"
    by (rule resolveTurn_Inr)
  show "pendingMoves s' = Map.empty"
    by (simp add: s')
  show "length (players s') = length (players s)"
    using resolve_loop_frame [OF lp] by (simp add: s')
  show "\<forall>i<length (players s). pid (players s ! i) = k \<longrightarrow> players s' ! i = players s ! i"
  proof (intro allI impI)
    fix i assume i: "i < length (players s)" and k: "pid (players s ! i) = k"
    from resolve_loop_nth [OF lp i] obtain gi gi' ev m where
      st: "resolve_step (intended_of s) (destCount_of s) (players s ! i) gi = Inr (ps' ! i, gi', ev, m)"
      by blast
    from assms i k have "status (players s ! i) \<noteq> ALIVE"
      by (metis nth_mem)
    with resolve_step_cases [OF st] show "players s' ! i = players s ! i"
      by (auto simp: s')
  qed
  show "\<forall>e\<in>set evs. case e of Move j fr to \<Rightarrow> j \<noteq> k | Blocked j d \<Rightarrow> j \<noteq> k | _ \<Rightarrow> True"
  proof
    fix e assume "e \<in> set evs"
    from resolve_loop_event [OF lp this] obtain i gi gi' ev m where
      i: "i < length (players s)"
      and st: "resolve_step (intended_of s) (destCount_of s) (players s ! i) gi = Inr (ps' ! i, gi', ev, m)"
      and e: "e \<in> set ev"
      by blast
    from assms i have "pid (players s ! i) = k \<Longrightarrow> status (players s ! i) \<noteq> ALIVE"
      by (metis nth_mem)
    with resolve_step_subject [OF st e]
    show "case e of Move j fr to \<Rightarrow> j \<noteq> k | Blocked j d \<Rightarrow> j \<noteq> k | _ \<Rightarrow> True"
      by (cases e) auto
  qed
  qed
  from rec eq rest show ?thesis
    by blast
qed

theorem C10_witness:
  "pendingMoves (submitMove stateA 7 3 2) 7 = Some (3, 2) \<and>
   resolveTurn (submitMove stateA 7 3 2) = resolveTurn stateA \<and>
   resolveTurn (submitMove stateA 7 3 2) =
     Inr (stateA\<lparr>history := [(0, [])], turn := 1, phase := EVAL\<rparr>, [])"
proof -
  have "\<forall>p\<in>set (players stateA). pid p = 7 \<longrightarrow> status p \<noteq> ALIVE"
    by (simp add: stateA_simps)
  from C10_intent_without_living_player_ignored [OF this, of 3 2] resolve_absent_player
  show ?thesis by simp
qed

section \<open>Evaluation\<close>

lemma legal_scan_total:
  "sz \<le> int (length g) \<Longrightarrow> \<exists>ms. legal_scan ds r c sz g = Inr ms"
proof (induction ds)
  case Nil
  then show ?case by simp
next
  case (Cons d ds)
  obtain dr dc where d: "d = (dr, dc)" by (cases d)
  from Cons obtain ms where ms: "legal_scan ds r c sz g = Inr ms" by blast
  show ?case
  proof (cases "inBounds (r + dr) (c + dc) sz")
    case True
    with Cons.prems have "0 \<le> r + dr" "r + dr < int (length g)"
      by (simp_all add: inBounds_def)
    then obtain v where "grid_get g (r + dr) (c + dc) = Inr v"
      using grid_get_total by blast
    with True ms d show ?thesis by (simp add: Let_def)
  next
    case False
    with ms d show ?thesis by (simp add: Let_def)
  qed
qed

lemma getLegalMoves_total:
  "sz \<le> int (length g) \<Longrightarrow> \<exists>ms. getLegalMoves r c sz g = Inr ms"
  unfolding getLegalMoves_def by (rule legal_scan_total)

subsection \<open>The code's legal moves are the specification's\<close>

lemma knight_offset_iff: "knight_offset dr dc \<longleftrightarrow> (dr, dc) \<in> set KNIGHT_MOVES"
proof -
  have a: "\<bar>x\<bar> = 2 \<longleftrightarrow> x = 2 \<or> x = - 2" "\<bar>x\<bar> = 1 \<longleftrightarrow> x = 1 \<or> x = - 1" for x :: int
    by arith+
  show ?thesis
    unfolding knight_offset_def a KNIGHT_MOVES_def by auto
qed

lemma legal_scan_filter:
  "legal_scan ds r c sz g = Inr ms \<Longrightarrow>
   ms = filter (\<lambda>(nr, nc). inBounds nr nc sz \<and> grid_get g nr nc = Inr (Some EMPTY))
          (map (\<lambda>(dr, dc). (r + dr, c + dc)) ds)"
proof (induction ds arbitrary: ms)
  case Nil
  then show ?case by simp
next
  case (Cons d ds)
  obtain dr dc where d: "d = (dr, dc)" by (cases d)
  show ?case
  proof (cases "inBounds (r + dr) (c + dc) sz")
    case False
    with Cons d show ?thesis by (simp add: Let_def)
  next
    case True
    with Cons.prems d obtain v ms' where
      v: "grid_get g (r + dr) (c + dc) = Inr v" and ms': "legal_scan ds r c sz g = Inr ms'"
      and ms: "ms = (if v = Some EMPTY then (r + dr, c + dc) # ms' else ms')"
      by (auto simp: Let_def split: sum.splits)
    from Cons.IH [OF ms'] True v ms d show ?thesis
      by simp
  qed
qed

lemma getLegalMoves_spec:
  assumes "getLegalMoves (row p) (col p) (boardSize s) (visited s) = Inr ms"
  shows "set ms = {d. legal_destination s p d}"
proof -
  have ms: "ms = filter (\<lambda>(nr, nc). inBounds nr nc (boardSize s) \<and>
                     grid_get (visited s) nr nc = Inr (Some EMPTY))
               (map (\<lambda>(dr, dc). (row p + dr, col p + dc)) KNIGHT_MOVES)"
    using assms unfolding getLegalMoves_def by (rule legal_scan_filter)
  have "(nr, nc) \<in> set (map (\<lambda>(dr, dc). (row p + dr, col p + dc)) KNIGHT_MOVES) \<longleftrightarrow>
        knight_offset (nr - row p) (nc - col p)" for nr nc
  proof
    assume "(nr, nc) \<in> set (map (\<lambda>(dr, dc). (row p + dr, col p + dc)) KNIGHT_MOVES)"
    then obtain dr dc where "(dr, dc) \<in> set KNIGHT_MOVES" "nr = row p + dr" "nc = col p + dc"
      by auto
    then show "knight_offset (nr - row p) (nc - col p)"
      by (simp add: knight_offset_iff)
  next
    assume "knight_offset (nr - row p) (nc - col p)"
    then have "(nr - row p, nc - col p) \<in> set KNIGHT_MOVES"
      by (simp only: knight_offset_iff)
    then have "(\<lambda>(dr, dc). (row p + dr, col p + dc)) (nr - row p, nc - col p)
        \<in> (\<lambda>(dr, dc). (row p + dr, col p + dc)) ` set KNIGHT_MOVES"
      by (rule imageI)
    then show "(nr, nc) \<in> set (map (\<lambda>(dr, dc). (row p + dr, col p + dc)) KNIGHT_MOVES)"
      by simp
  qed
  then show ?thesis
    unfolding ms legal_destination_def by (auto simp del: set_map)
qed

lemma stuck_iff:
  assumes "getLegalMoves (row p) (col p) (boardSize s) (visited s) = Inr ms"
  shows "stuck s p \<longleftrightarrow> ms = []"
proof -
  have "stuck s p \<longleftrightarrow> {d. legal_destination s p d} = {}"
    by (auto simp: stuck_def)
  also have "\<dots> \<longleftrightarrow> ms = []"
    by (simp only: getLegalMoves_spec [OF assms, symmetric] set_empty)
  finally show ?thesis .
qed

lemma eliminate_step_eq:
  assumes "boardSize s \<le> int (length (visited s))"
  shows "eliminate_step (boardSize s) (visited s) p =
         Inr (after_elimination s p,
              if status p = ALIVE \<and> stuck s p then [Elimination (pid p) (score p)] else [])"
proof -
  from getLegalMoves_total [OF assms] obtain ms where
    ms: "getLegalMoves (row p) (col p) (boardSize s) (visited s) = Inr ms"
    by blast
  show ?thesis
    by (simp add: eliminate_step_def after_elimination_def ms stuck_iff [OF ms])
qed

lemma eliminate_loop_eq:
  assumes "boardSize s \<le> int (length (visited s))"
  shows "eliminate_loop (boardSize s) (visited s) ps =
         Inr (map (after_elimination s) ps,
              map (\<lambda>p. Elimination (pid p) (score p)) (filter (\<lambda>p. status p = ALIVE \<and> stuck s p) ps))"
  by (induction ps) (simp_all add: eliminate_step_eq [OF assms])

lemma eliminate_step_frame:
  assumes "eliminate_step sz g p = Inr (p', ev)"
  shows "pid p' = pid p" "score p' = score p" "row p' = row p" "col p' = col p"
    "move_count k ev = 0" "moves_in ev = 0"
  using assms by (auto simp: eliminate_step_def move_count_def moves_in_def split: if_splits sum.splits)

lemma eliminate_loop_frame:
  "eliminate_loop sz g ps = Inr (ps', evs) \<Longrightarrow>
   map pid ps' = map pid ps \<and> map score ps' = map score ps \<and> move_count k evs = 0 \<and> moves_in evs = 0"
proof (induction ps arbitrary: ps' evs)
  case Nil
  then show ?case by (simp add: move_count_def moves_in_def)
next
  case (Cons p ps)
  from Cons.prems obtain p' ev qs evs' where
    st: "eliminate_step sz g p = Inr (p', ev)" and lp: "eliminate_loop sz g ps = Inr (qs, evs')"
    and eq: "ps' = p' # qs" "evs = ev @ evs'"
    by (auto split: sum.splits)
  from Cons.IH [OF lp] eliminate_step_frame [OF st] show ?case
    by (simp add: eq move_count_append moves_in_append)
qed

lemma crown_first_alive_frame:
  "map pid (crown_first_alive ps) = map pid ps \<and> map score (crown_first_alive ps) = map score ps"
  by (induction ps) simp_all

lemma evaluateState_frame:
  assumes "evaluateState s = Inr (s', evs)"
  shows "map pid (players s') = map pid (players s)" "map score (players s') = map score (players s)"
    "visited s' = visited s" "move_count k evs = 0" "moves_in evs = 0" "boardSize s' = boardSize s"
proof -
  from assms obtain ps1 evs1 where
    lp: "eliminate_loop (boardSize s) (visited s) (players s) = Inr (ps1, evs1)"
    by (auto simp: evaluateState_def Let_def split: sum.splits)
  note fr = eliminate_loop_frame [OF lp, of k]
  have w: "move_count k (map (\<lambda>p. Winner (pid p)) xs) = 0" "moves_in (map (\<lambda>p. Winner (pid p)) xs) = 0" for xs
    by (induction xs) (simp_all add: move_count_def moves_in_def)
  have m: "pid \<circ> (\<lambda>p. if Q p then p\<lparr>status := WINNER\<rparr> else p) = pid"
      "score \<circ> (\<lambda>p. if Q p then p\<lparr>status := WINNER\<rparr> else p) = score" for Q
    by (auto simp: fun_eq_iff)
  from assms lp fr show "map pid (players s') = map pid (players s)"
    by (auto simp: evaluateState_def Let_def crown_first_alive_frame m split: if_splits)
  from assms lp fr show "map score (players s') = map score (players s)"
    by (auto simp: evaluateState_def Let_def crown_first_alive_frame m split: if_splits)
  from assms lp show "visited s' = visited s"
    by (auto simp: evaluateState_def Let_def split: if_splits)
  from assms lp show "boardSize s' = boardSize s"
    by (auto simp: evaluateState_def Let_def split: if_splits)
  from assms lp fr w [of "filter _ ps1"] show "move_count k evs = 0"
    by (auto simp: evaluateState_def Let_def move_count_append move_count_def split: if_splits)
  from assms lp fr w [of "filter _ ps1"] show "moves_in evs = 0"
    by (auto simp: evaluateState_def Let_def moves_in_append moves_in_def split: if_splits)
qed

subsection \<open>evaluateState\<close>

lemma js_max_Max: "xs \<noteq> [] \<Longrightarrow> js_max xs = Some (Max (set xs))"
proof (induction xs)
  case Nil
  then show ?case by simp
next
  case (Cons x xs)
  show ?case
  proof (cases "xs = []")
    case True
    then show ?thesis by simp
  next
    case False
    with Cons.IH show ?thesis by (simp add: Max_insert max.commute)
  qed
qed

lemma crown_first_alive_map:
  "length (filter (\<lambda>p. status p = ALIVE) ps) \<le> 1 \<Longrightarrow>
   crown_first_alive ps = map (\<lambda>p. if status p = ALIVE then p\<lparr>status := WINNER\<rparr> else p) ps"
proof (induction ps)
  case Nil
  then show ?case by simp
next
  case (Cons p ps)
  show ?case
  proof (cases "status p = ALIVE")
    case True
    with Cons.prems have "filter (\<lambda>p. status p = ALIVE) ps = []" by simp
    then have "\<forall>q\<in>set ps. status q \<noteq> ALIVE" by (simp add: filter_empty_conv)
    then have "map (\<lambda>p. if status p = ALIVE then p\<lparr>status := WINNER\<rparr> else p) ps = ps"
      by (simp add: map_idI)
    with True show ?thesis by simp
  next
    case False
    with Cons show ?thesis by simp
  qed
qed

lemma alive_after_elimination:
  "status (after_elimination s p) = ALIVE \<longleftrightarrow> status p = ALIVE \<and> \<not> stuck s p"
  by (auto simp: after_elimination_def)

lemma filter_alive_after:
  "filter (\<lambda>p. status p = ALIVE) (map (after_elimination s) ps) =
   filter (\<lambda>p. status p = ALIVE \<and> \<not> stuck s p) ps"
  by (induction ps) (auto simp: after_elimination_def)

lemma after_elimination_frame:
  "score (after_elimination s p) = score p" "pid (after_elimination s p) = pid p"
  "(after_elimination s p)\<lparr>status := WINNER\<rparr> = p\<lparr>status := WINNER\<rparr>"
  by (simp_all add: after_elimination_def)

lemma evaluateState_eq:
  assumes "boardSize s \<le> int (length (visited s))"
  shows "evaluateState s =
     (if length (survivors s) \<le> 1 then
        (if length (survivors s) = 1 then
           Inr (s\<lparr>players := map (\<lambda>p. if status (after_elimination s p) = ALIVE
                                       then p\<lparr>status := WINNER\<rparr> else after_elimination s p) (players s),
                   phase := GAMEOVER\<rparr>,
                elimination_events s @ [Winner (pid (hd (survivors s)))])
         else
           Inr (s\<lparr>players := map (\<lambda>p. if Some (score p) = js_max (map score (players s))
                                       then p\<lparr>status := WINNER\<rparr> else after_elimination s p) (players s),
                   phase := GAMEOVER\<rparr>,
                elimination_events s @
                map (\<lambda>p. Winner (pid p))
                  (filter (\<lambda>p. Some (score p) = js_max (map score (players s))) (players s))))
      else Inr (s\<lparr>players := map (after_elimination s) (players s), phase := SELECT\<rparr>,
                elimination_events s))"
proof -
  let ?ps1 = "map (after_elimination s) (players s)"
  have lp: "eliminate_loop (boardSize s) (visited s) (players s) = Inr (?ps1, elimination_events s)"
    by (simp add: eliminate_loop_eq [OF assms] elimination_events_def)
  have fa: "filter (\<lambda>p. status p = ALIVE) ?ps1 = survivors s"
    by (simp add: filter_alive_after survivors_def)
  have sc: "map score ?ps1 = map score (players s)"
    by (simp add: after_elimination_frame comp_def)
  have crown: "crown_first_alive ?ps1 =
      map (\<lambda>p. if status (after_elimination s p) = ALIVE
                then p\<lparr>status := WINNER\<rparr> else after_elimination s p) (players s)"
    if "length (survivors s) \<le> 1"
  proof -
    from that fa have "length (filter (\<lambda>p. status p = ALIVE) ?ps1) \<le> 1" by simp
    from crown_first_alive_map [OF this] show ?thesis
      by (simp add: comp_def after_elimination_frame)
  qed
  have mx: "(\<lambda>p. if Some (score p) = m then p\<lparr>status := WINNER\<rparr> else p) \<circ> after_elimination s =
      (\<lambda>p. if Some (score p) = m then p\<lparr>status := WINNER\<rparr> else after_elimination s p)" for m
    by (simp add: fun_eq_iff after_elimination_frame)
  have wn: "map (\<lambda>p. Winner (pid p)) (filter (\<lambda>p. Some (score p) = m) ?ps1) =
      map (\<lambda>p. Winner (pid p)) (filter (\<lambda>p. Some (score p) = m) (players s))" for m
    by (induction "players s") (simp_all add: filter_map comp_def after_elimination_frame)
  show ?thesis
    unfolding evaluateState_def Let_def cloneState_id lp sum.case prod.case fa sc
    by (simp add: crown mx wn)
qed

section \<open>Initial states\<close>

lemma init_players_props:
  "init_players pc hc starts i = Inr ps \<Longrightarrow>
   map pid ps = [i..pc - 1] \<and>
   (\<forall>p\<in>set ps. score p = 1 \<and> status p = ALIVE) \<and>
   map (\<lambda>p. Some (row p, col p)) ps = map (js_index starts) [i..pc - 1]"
proof (induction pc hc starts i arbitrary: ps rule: init_players.induct)
  case (1 pc hc starts i)
  show ?case
  proof (cases "i < pc")
    case False
    with "1.prems" show ?thesis
      by (simp add: init_players.simps [of pc hc starts i])
  next
    case True
    from "1.prems" True obtain r c qs where
      idx: "js_index starts i = Some (r, c)" and
      lp: "init_players pc hc starts (i + 1) = Inr qs" and
      ps: "ps = \<lparr> pid = i, isHuman = (i < hc), status = ALIVE, row = r, col = c, score = 1,
                   aiStrategy = (if i = 0 then None else if i mod 2 = 1 then Some ''mobility''
                                 else Some ''aggressor'') \<rparr> # qs"
      by (subst (asm) init_players.simps) (auto split: option.splits sum.splits)
    from "1.IH" [OF True idx [unfolded split_paired_all] _ lp] 
    have IH: "map pid qs = [i + 1..pc - 1] \<and>
       (\<forall>p\<in>set qs. score p = 1 \<and> status p = ALIVE) \<and>
       map (\<lambda>p. Some (row p, col p)) qs = map (js_index starts) [i + 1..pc - 1]"
      by simp
    have "[i..pc - 1] = i # [i + 1..pc - 1]"
      using True by (simp add: upto_rec1)
    with IH idx show ?thesis
      by (simp add: ps)
  qed
qed

lemma js_index_upto:
  "pc \<le> int (length xs) \<Longrightarrow> map (js_index xs) [0..pc - 1] = map Some (take (nat pc) xs)"
proof (induction xs arbitrary: pc rule: rev_induct)
  case Nil
  then show ?case by simp
next
  case (snoc x xs)
  show ?case
  proof (cases "pc = int (length xs) + 1")
    case False
    with snoc.prems have le: "pc \<le> int (length xs)" by simp
    have "map (js_index (xs @ [x])) [0..pc - 1] = map (js_index xs) [0..pc - 1]"
      using le by (auto simp: js_index_def nth_append)
    with snoc.IH [OF le] le show ?thesis by simp
  next
    case True
    then have "[0..pc - 1] = [0..int (length xs) - 1] @ [int (length xs)]"
      by (simp add: upto_rec2)
    moreover have "map (js_index (xs @ [x])) [0..int (length xs) - 1] = map (js_index xs) [0..int (length xs) - 1]"
      by (auto simp: js_index_def nth_append)
    moreover have "js_index (xs @ [x]) (int (length xs)) = Some x"
      by (simp add: js_index_def)
    ultimately show ?thesis
      using snoc.IH [of "int (length xs)"] True by simp
  qed
qed

lemma all_Some_in_range:
  assumes "map f ps = map (js_index xs) [0..pc - 1]" "\<And>p. f p \<noteq> None"
  shows "pc \<le> int (length xs)"
proof (rule ccontr)
  assume "\<not> pc \<le> int (length xs)"
  then have "int (length xs) \<in> set [0..pc - 1]" by simp
  then have "js_index xs (int (length xs)) \<in> set (map (js_index xs) [0..pc - 1])"
    by simp
  with assms(1) have "js_index xs (int (length xs)) \<in> set (map f ps)" by simp
  then obtain p where "f p = js_index xs (int (length xs))" by auto
  then have "f p = None" by (simp add: js_index_def)
  with assms(2) [of p] show False by simp
qed

lemma rand_below_range:
  assumes "1 \<le> sz"
  shows "0 \<le> fst (rand_below x sz)" "fst (rand_below x sz) < sz"
proof -
  let ?u = "fst (rng_call x)"
  have u: "0 \<le> ?u" "?u < 1" using rng_call_range [of x] by simp_all
  have f: "fst (rand_below x sz) = \<lfloor>?u * real_of_int sz\<rfloor>"
    by (simp add: rand_below_def split_beta)
  from u assms have "0 \<le> ?u * real_of_int sz" by simp
  then show "0 \<le> fst (rand_below x sz)" by (simp add: f)
  from u assms have "?u * real_of_int sz < 1 * real_of_int sz"
    by (intro mult_strict_right_mono) simp_all
  then show "fst (rand_below x sz) < sz"
    by (simp add: f floor_less_iff)
qed

lemma place_loop_props:
  "1 \<le> sz \<Longrightarrow>
   \<exists>new. fst (place_loop sz count x occ obs a) = obs @ new \<and> distinct new \<and>
     (\<forall>(r, c)\<in>set new. inBounds r c sz \<and> cellKey r c \<notin> occ)"
proof (induction sz count x occ obs a rule: place_loop.induct)
  case (1 sz count x occupied obs attempts)
  let ?r = "fst (rand_below x sz)" and ?x1 = "snd (rand_below x sz)"
  let ?c = "fst (rand_below ?x1 sz)" and ?x2 = "snd (rand_below ?x1 sz)"
  let ?k = "cellKey ?r ?c"
  show ?case
  proof (cases "int (length obs) < count \<and> attempts < 2000")
    case False
    then have "place_loop sz count x occupied obs attempts = (obs, x)"
      by (subst place_loop.simps) auto
    then show ?thesis by simp
  next
    case cond: True
    have inb: "inBounds ?r ?c sz"
      using rand_below_range [OF "1.prems"] by (simp add: inBounds_def)
    show ?thesis
    proof (cases "?k \<notin> occupied")
      case True
      from "1.IH"(1) [OF cond refl refl refl refl refl True "1.prems"]
      obtain new where new: "fst (place_loop sz count ?x2 (insert ?k occupied) (obs @ [(?r, ?c)]) (Suc attempts))
            = (obs @ [(?r, ?c)]) @ new" "distinct new"
          "\<forall>(r, c)\<in>set new. inBounds r c sz \<and> cellKey r c \<notin> insert ?k occupied"
        by blast
      have eq: "place_loop sz count x occupied obs attempts =
            place_loop sz count ?x2 (insert ?k occupied) (obs @ [(?r, ?c)]) (Suc attempts)"
        using cond True by (subst place_loop.simps) (simp add: Let_def)
      have "(?r, ?c) \<notin> set new"
        using new(3) by auto
      with new inb True eq show ?thesis
        by (intro exI [of _ "(?r, ?c) # new"]) auto
    next
      case False
      from "1.IH"(2) [OF cond refl refl refl refl refl False "1.prems"]
      obtain new where new: "fst (place_loop sz count ?x2 occupied obs (Suc attempts)) = obs @ new"
          "distinct new" "\<forall>(r, c)\<in>set new. inBounds r c sz \<and> cellKey r c \<notin> occupied"
        by blast
      have eq: "place_loop sz count x occupied obs attempts =
            place_loop sz count ?x2 occupied obs (Suc attempts)"
        using cond False by (subst place_loop.simps) (simp add: Let_def)
      with new show ?thesis by auto
    qed
  qed
qed

lemma placeObstacles_props:
  assumes "1 \<le> sz"
  shows "distinct (fst (placeObstacles sz x starts count))"
    and "\<forall>(r, c)\<in>set (fst (placeObstacles sz x starts count)).
           inBounds r c sz \<and> (r, c) \<notin> set starts"
proof -
  from place_loop_props [OF assms, of count x "protected_keys starts" "[]" 0]
  obtain new where new: "fst (placeObstacles sz x starts count) = new" "distinct new"
    "\<forall>(r, c)\<in>set new. inBounds r c sz \<and> cellKey r c \<notin> protected_keys starts"
    by (auto simp: placeObstacles_def)
  then show "distinct (fst (placeObstacles sz x starts count))" by simp
  have "cellKey r c \<in> protected_keys starts" if "(r, c) \<in> set starts" for r c
    using that by (force simp: protected_keys_def)
  with new show "\<forall>(r, c)\<in>set (fst (placeObstacles sz x starts count)).
           inBounds r c sz \<and> (r, c) \<notin> set starts"
    by auto
qed

subsection \<open>Marking cells\<close>

lemma grid_set_Inr:
  assumes "grid_set g r c v = Inr g'"
  shows "0 \<le> r" "nat r < length g" "0 \<le> c" "nat c < length (g ! nat r)"
    "g' = g[nat r := (g ! nat r)[nat c := v]]"
  using assms by (auto simp: grid_set_def js_index_def split: option.splits if_splits)

lemma grid_get_after_set:
  assumes "grid_set g r c v = Inr g'"
  shows "grid_get g' r' c' = (if (r', c') = (r, c) then Inr (Some v) else grid_get g r' c')"
proof -
  note s = grid_set_Inr [OF assms]
  show ?thesis
  proof (cases "r' = r")
    case False
    with s(1,2) show ?thesis
      by (auto simp: s(5) grid_get_def js_index_def nth_list_update nat_eq_iff)
  next
    case True
    with s(1-4) show ?thesis
      by (auto simp: s(5) grid_get_def js_index_def nth_list_update nat_eq_iff)
  qed
qed

lemma mark_cells_get:
  "mark_cells g cs v = Inr g' \<Longrightarrow>
   length g' = length g \<and>
   (\<forall>r c. grid_get g' r c = (if (r, c) \<in> set cs then Inr (Some v) else grid_get g r c))"
proof (induction cs arbitrary: g)
  case Nil
  then show ?case by simp
next
  case (Cons x cs)
  obtain r c where x: "x = (r, c)" by (cases x)
  from Cons.prems x obtain g1 where
    st: "grid_set g r c v = Inr g1" and lp: "mark_cells g1 cs v = Inr g'"
    by (auto split: sum.splits)
  from grid_set_Inr(5) [OF st] have "length g1 = length g" by simp
  with Cons.IH [OF lp] grid_get_after_set [OF st] x show ?case
    by auto
qed

lemma mark_cells_total:
  "(\<forall>(r, c)\<in>set cs. \<exists>w. grid_get g r c = Inr (Some w)) \<Longrightarrow> \<exists>g'. mark_cells g cs v = Inr g'"
proof (induction cs arbitrary: g)
  case Nil
  then show ?case by simp
next
  case (Cons x cs)
  obtain r c where x: "x = (r, c)" by (cases x)
  with Cons.prems obtain w where "grid_get g r c = Inr (Some w)" by auto
  then have st: "grid_set g r c v = Inr (g[nat r := (g ! nat r)[nat c := v]])"
    by (rule grid_set_on_cell)
  have "\<forall>(r', c')\<in>set cs. \<exists>w. grid_get (g[nat r := (g ! nat r)[nat c := v]]) r' c' = Inr (Some w)"
    using Cons.prems by (auto simp: grid_get_after_set [OF st])
  from Cons.IH [OF this] st x show ?case by simp
qed

lemma filter_update_le:
  assumes "\<not> P w"
  shows "length (filter P (xs[j := w])) \<le> length (filter P xs)"
proof (cases "j < length xs")
  case False
  then have "length xs \<le> j" by arith
  then have "xs[j := w] = xs" by (rule list_update_beyond)
  then show ?thesis by (simp only: order_refl)
next
  case True
  have a: "xs = take j xs @ (xs ! j) # drop (Suc j) xs"
    using True by (simp add: id_take_nth_drop)
  have b: "xs[j := w] = take j xs @ w # drop (Suc j) xs"
    using True by (simp add: upd_conv_take_nth_drop)
  have "length (filter P (xs[j := w])) = length (filter P (take j xs)) + length (filter P (drop (Suc j) xs))"
    by (subst b) (simp add: assms)
  moreover have "length (filter P xs) \<ge> length (filter P (take j xs)) + length (filter P (drop (Suc j) xs))"
    by (subst (3) a) simp
  ultimately show ?thesis by simp
qed

lemma empties_update_le:
  assumes "w \<noteq> EMPTY"
  shows "empties (g[i := (g ! i)[j := w]]) \<le> empties g"
proof (cases "i < length g")
  case False
  then have "length g \<le> i" by arith
  then have "g[i := (g ! i)[j := w]] = g" by (rule list_update_beyond)
  then show ?thesis by (simp only: order_refl)
next
  case True
  let ?P = "\<lambda>v. v = EMPTY"
  have a: "g = take i g @ (g ! i) # drop (Suc i) g"
    using True by (simp add: id_take_nth_drop)
  have b: "g[i := (g ! i)[j := w]] = take i g @ (g ! i)[j := w] # drop (Suc i) g"
    using True by (simp add: upd_conv_take_nth_drop)
  have "empties g = length (filter ?P (concat (take i g))) + length (filter ?P (g ! i))
      + length (filter ?P (concat (drop (Suc i) g)))"
    unfolding empties_def by (subst a) simp
  moreover have "empties (g[i := (g ! i)[j := w]]) =
      length (filter ?P (concat (take i g))) + length (filter ?P ((g ! i)[j := w]))
      + length (filter ?P (concat (drop (Suc i) g)))"
    unfolding empties_def by (subst b) simp
  moreover have "length (filter ?P ((g ! i)[j := w])) \<le> length (filter ?P (g ! i))"
    using assms by (intro filter_update_le) simp
  ultimately show ?thesis by simp
qed

lemma mark_cells_empties_le:
  "mark_cells g cs v = Inr g' \<Longrightarrow> v \<noteq> EMPTY \<Longrightarrow> empties g' \<le> empties g"
proof (induction cs arbitrary: g)
  case Nil
  then show ?case by simp
next
  case (Cons x cs)
  obtain r c where x: "x = (r, c)" by (cases x)
  from Cons.prems x obtain g1 where
    st: "grid_set g r c v = Inr g1" and lp: "mark_cells g1 cs v = Inr g'"
    by (auto split: sum.splits)
  from grid_set_Inr(5) [OF st] Cons.prems(2) have "empties g1 \<le> empties g"
    by (simp add: empties_update_le)
  with Cons.IH [OF lp Cons.prems(2)] show ?case by simp
qed

lemma mark_cells_empties:
  "mark_cells g cs v = Inr g' \<Longrightarrow> v \<noteq> EMPTY \<Longrightarrow> distinct cs \<Longrightarrow>
   (\<forall>(r, c)\<in>set cs. grid_get g r c = Inr (Some EMPTY)) \<Longrightarrow>
   empties g' + length cs = empties g"
proof (induction cs arbitrary: g)
  case Nil
  then show ?case by simp
next
  case (Cons x cs)
  obtain r c where x: "x = (r, c)" by (cases x)
  from Cons.prems(1) x obtain g1 where
    st: "grid_set g r c v = Inr g1" and lp: "mark_cells g1 cs v = Inr g'"
    by (auto split: sum.splits)
  from Cons.prems(4) x have e: "grid_get g r c = Inr (Some EMPTY)" by simp
  then have "nat r < length g" "nat c < length (g ! nat r)" "g ! nat r ! nat c = EMPTY"
    by (simp_all add: grid_get_Some)
  then have one: "Suc (empties g1) = empties g"
    unfolding grid_set_Inr(5) [OF st] using Cons.prems(2) by (intro empties_update)
  have "\<forall>(r', c')\<in>set cs. grid_get g1 r' c' = Inr (Some EMPTY)"
    using Cons.prems(3,4) x by (auto simp: grid_get_after_set [OF st])
  from Cons.IH [OF lp Cons.prems(2) _ this] Cons.prems(3) one show ?case
    by simp
qed

lemma empties_makeGrid: "empties (makeGrid sz) = nat sz * nat sz"
proof -
  have "length (filter (\<lambda>v. v = EMPTY) (concat (replicate n (replicate m EMPTY)))) = n * m" for n m
    by (induction n) simp_all
  then show ?thesis by (simp add: empties_def makeGrid_def)
qed

lemma grid_get_makeGrid:
  "grid_get (makeGrid sz) r c = (if 0 \<le> r \<and> r < sz then Inr (if 0 \<le> c \<and> c < sz then Some EMPTY else None) else Inl TypeError)"
  by (auto simp: grid_get_def js_index_def makeGrid_def)

subsection \<open>initState\<close>

lemma initState_Inr:
  assumes "initState bs sd pc cc ro = Inr s"
  obtains g1 where
    "init_players pc (max 1 (pc - cc)) (defaultStartPositions pc bs) 0 = Inr (players s)"
    "mark_cells (makeGrid bs) (map (\<lambda>p. (row p, col p)) (players s)) BLOCKED = Inr g1"
    "mark_cells g1 (obstacles s) OBSTACLE = Inr (visited s)"
    "obstacles s = fst (placeObstacles bs (makeRng sd) (defaultStartPositions pc bs)
                      (obstacleCount (merge_rules ro)))"
    "phase s = SELECT" "boardSize s = bs" "pendingMoves s = Map.empty" "turn s = 0"
  using assms
  by (auto simp: initState_def Let_def split: sum.splits)

lemma corners_take:
  "0 \<le> pc \<Longrightarrow> defaultStartPositions pc bs =
     take (nat pc) [(bs div 5, bs div 5), (bs - 1 - bs div 5, bs - 1 - bs div 5),
                    (bs div 5, bs - 1 - bs div 5), (bs - 1 - bs div 5, bs div 5)]"
  by (simp add: defaultStartPositions_def js_slice0_def Let_def)

lemma init_players_positions:
  assumes "init_players pc hc (defaultStartPositions pc bs) 0 = Inr ps"
  shows "map (\<lambda>p. (row p, col p)) ps =
     take (nat pc) [(bs div 5, bs div 5), (bs - 1 - bs div 5, bs - 1 - bs div 5),
                    (bs div 5, bs - 1 - bs div 5), (bs - 1 - bs div 5, bs div 5)]"
    and "set (map (\<lambda>p. (row p, col p)) ps) \<subseteq> set (defaultStartPositions pc bs)"
proof -
  let ?starts = "defaultStartPositions pc bs"
  from init_players_props [OF assms]
  have m: "map (\<lambda>p. Some (row p, col p)) ps = map (js_index ?starts) [0..pc - 1]"
    by simp
  have "map (\<lambda>p. (row p, col p)) ps = take (nat pc) ?starts"
  proof (cases "0 \<le> pc")
    case False
    with m show ?thesis by simp
  next
    case True
    from m have le: "pc \<le> int (length ?starts)"
      by (rule all_Some_in_range) simp
    from m js_index_upto [OF le] have "map (\<lambda>p. Some (row p, col p)) ps = map Some (take (nat pc) ?starts)"
      by simp
    then have "map Some (map (\<lambda>p. (row p, col p)) ps) = map Some (take (nat pc) ?starts)"
      by (simp add: comp_def)
    then show ?thesis
      by (simp only: inj_map_eq_map [OF inj_Some])
  qed
  then show "set (map (\<lambda>p. (row p, col p)) ps) \<subseteq> set ?starts"
    by (simp only: set_take_subset)
  show "map (\<lambda>p. (row p, col p)) ps =
     take (nat pc) [(bs div 5, bs div 5), (bs - 1 - bs div 5, bs - 1 - bs div 5),
                    (bs div 5, bs - 1 - bs div 5), (bs - 1 - bs div 5, bs div 5)]"
  proof (cases "0 \<le> pc")
    case True
    with \<open>map (\<lambda>p. (row p, col p)) ps = take (nat pc) ?starts\<close> show ?thesis
      by (simp add: corners_take)
  next
    case False
    with \<open>map (\<lambda>p. (row p, col p)) ps = take (nat pc) ?starts\<close> show ?thesis by simp
  qed
qed

lemma init_players_total:
  "(\<forall>j. i \<le> j \<and> j < pc \<longrightarrow> js_index starts j \<noteq> None) \<Longrightarrow>
   \<exists>ps. init_players pc hc starts i = Inr ps"
proof (induction pc hc starts i rule: init_players.induct)
  case (1 pc hc starts i)
  show ?case
  proof (cases "i < pc")
    case False
    then show ?thesis by (subst init_players.simps) simp
  next
    case True
    with "1.prems" obtain r c where idx: "js_index starts i = Some (r, c)"
      by (metis not_None_eq order_refl surj_pair)
    from "1.IH" [OF True idx [unfolded split_paired_all]] "1.prems"
    obtain qs where "init_players pc hc starts (i + 1) = Inr qs"
      by auto
    with True idx show ?thesis
      by (subst init_players.simps) simp
  qed
qed

lemma corners_inBounds:
  assumes "1 \<le> bs" "(r, c) \<in> set (defaultStartPositions pc bs)"
  shows "inBounds r c bs"
proof -
  have "set (defaultStartPositions pc bs) \<subseteq>
      {(bs div 5, bs div 5), (bs - 1 - bs div 5, bs - 1 - bs div 5),
       (bs div 5, bs - 1 - bs div 5), (bs - 1 - bs div 5, bs div 5)}"
    using set_take_subset [of _ "[(bs div 5, bs div 5), (bs - 1 - bs div 5, bs - 1 - bs div 5),
                    (bs div 5, bs - 1 - bs div 5), (bs - 1 - bs div 5, bs div 5)]"]
    by (auto simp: defaultStartPositions_def js_slice0_def Let_def)
  moreover have "0 \<le> bs div 5" "bs div 5 \<le> bs - 1"
    using assms(1) by simp_all
  ultimately show ?thesis
    using assms(2) by (auto simp: inBounds_def)
qed

lemma initState_total:
  assumes "1 \<le> bs" "pc \<le> 4"
  shows "\<exists>s. initState bs sd pc cc ro = Inr s"
proof -
  let ?starts = "defaultStartPositions pc bs"
  let ?obs = "fst (placeObstacles bs (makeRng sd) ?starts (obstacleCount (merge_rules ro)))"
  have "\<forall>j. 0 \<le> j \<and> j < pc \<longrightarrow> js_index ?starts j \<noteq> None"
    using assms(2) by (auto simp: corners_take js_index_def)
  from init_players_total [OF this] obtain ps where
    ps: "init_players pc (max 1 (pc - cc)) ?starts 0 = Inr ps"
    by blast
  have inb: "\<forall>(r, c)\<in>set (map (\<lambda>p. (row p, col p)) ps). inBounds r c bs"
    using init_players_positions(2) [OF ps] corners_inBounds [OF assms(1)] by blast
  then have "\<forall>(r, c)\<in>set (map (\<lambda>p. (row p, col p)) ps). \<exists>w. grid_get (makeGrid bs) r c = Inr (Some w)"
    by (auto simp: grid_get_makeGrid inBounds_def)
  from mark_cells_total [OF this] obtain g1 where
    g1: "mark_cells (makeGrid bs) (map (\<lambda>p. (row p, col p)) ps) BLOCKED = Inr g1"
    by blast
  have "\<exists>w. grid_get g1 r c = Inr (Some w)" if "inBounds r c bs" for r c
    using that mark_cells_get [OF g1] by (auto simp: grid_get_makeGrid inBounds_def)
  with placeObstacles_props(2) [OF assms(1)]
  have "\<forall>(r, c)\<in>set ?obs. \<exists>w. grid_get g1 r c = Inr (Some w)"
    by fast
  from mark_cells_total [OF this] obtain g2 where
    "mark_cells g1 ?obs OBSTACLE = Inr g2"
    by blast
  with ps g1 show ?thesis
    by (simp add: initState_def Let_def)
qed

lemma initState_players:
  assumes "initState bs sd pc cc ro = Inr s"
  shows "map pid (players s) = [0..pc - 1]"
    and "\<forall>p\<in>set (players s). score p = 1 \<and> status p = ALIVE \<and>
            (\<exists>v. grid_get (visited s) (row p) (col p) = Inr (Some v) \<and> v \<noteq> EMPTY)"
proof -
  from assms obtain g1 where
    ps: "init_players pc (max 1 (pc - cc)) (defaultStartPositions pc bs) 0 = Inr (players s)" and
    g1: "mark_cells (makeGrid bs) (map (\<lambda>p. (row p, col p)) (players s)) BLOCKED = Inr g1" and
    g2: "mark_cells g1 (obstacles s) OBSTACLE = Inr (visited s)"
    by (rule initState_Inr)
  from init_players_props [OF ps] show "map pid (players s) = [0..pc - 1]"
    by simp
  have "\<exists>v. grid_get (visited s) (row p) (col p) = Inr (Some v) \<and> v \<noteq> EMPTY"
    if "p \<in> set (players s)" for p
  proof -
    from that mark_cells_get [OF g1] have "grid_get g1 (row p) (col p) = Inr (Some BLOCKED)"
      by auto
    with mark_cells_get [OF g2] show ?thesis
      by (auto simp: BLOCKED_def OBSTACLE_def EMPTY_def)
  qed
  with init_players_props [OF ps]
  show "\<forall>p\<in>set (players s). score p = 1 \<and> status p = ALIVE \<and>
            (\<exists>v. grid_get (visited s) (row p) (col p) = Inr (Some v) \<and> v \<noteq> EMPTY)"
    by blast
qed

section \<open>Claims about initial and reachable states\<close>

text \<open>
  Claim C7.  Whenever \<open>initState\<close> returns a state, its players stand, in order, on the
  first \<open>playerCount\<close> of the corners \<open>(pad,pad)\<close>, \<open>(size-1-pad,size-1-pad)\<close>,
  \<open>(pad,size-1-pad)\<close>, \<open>(size-1-pad,pad)\<close> with \<open>pad = floor(size/5)\<close>; each has score 1,
  is ALIVE and stands on a cell that is not EMPTY; the phase is SELECT.  It returns a state
  for every board size of at least 1 and every player count of at most 4.  For scenario A
  (size 8, seed 42, two players, no CPU, no obstacles) the start cells are (1,1) and (6,6),
  both marked BLOCKED, both scores are 1 and the phase is SELECT.
\<close>

theorem C7_initState_corner_starts:
  "(initState bs sd pc cc ro = Inr s \<longrightarrow>
      map (\<lambda>p. (row p, col p)) (players s) =
        take (nat pc) [(bs div 5, bs div 5), (bs - 1 - bs div 5, bs - 1 - bs div 5),
                       (bs div 5, bs - 1 - bs div 5), (bs - 1 - bs div 5, bs div 5)] \<and>
      (\<forall>p\<in>set (players s). score p = 1 \<and> status p = ALIVE \<and>
         (\<exists>v. grid_get (visited s) (row p) (col p) = Inr (Some v) \<and> v \<noteq> EMPTY)) \<and>
      phase s = SELECT) \<and>
   (1 \<le> bs \<and> pc \<le> 4 \<longrightarrow> (\<exists>s0. initState bs sd pc cc ro = Inr s0)) \<and>
   initState 8 42 2 0 rulesA = Inr stateA \<and>
   map (\<lambda>p. (row p, col p, score p)) (players stateA) = [(1, 1, 1), (6, 6, 1)] \<and>
   grid_get (visited stateA) 1 1 = Inr (Some BLOCKED) \<and>
   grid_get (visited stateA) 6 6 = Inr (Some BLOCKED) \<and>
   phase stateA = SELECT"
proof -
  have gen: "map (\<lambda>p. (row p, col p)) (players s) =
        take (nat pc) [(bs div 5, bs div 5), (bs - 1 - bs div 5, bs - 1 - bs div 5),
                       (bs div 5, bs - 1 - bs div 5), (bs - 1 - bs div 5, bs div 5)] \<and>
      (\<forall>p\<in>set (players s). score p = 1 \<and> status p = ALIVE \<and>
         (\<exists>v. grid_get (visited s) (row p) (col p) = Inr (Some v) \<and> v \<noteq> EMPTY)) \<and>
      phase s = SELECT" if init: "initState bs sd pc cc ro = Inr s"
  proof -
    from init obtain g1 where
      ps: "init_players pc (max 1 (pc - cc)) (defaultStartPositions pc bs) 0 = Inr (players s)"
      and ph: "phase s = SELECT"
      by (rule initState_Inr)
    from init_players_positions(1) [OF ps] initState_players(2) [OF init] ph show ?thesis
      by blast
  qed
  have tot: "\<exists>s0. initState bs sd pc cc ro = Inr s0" if "1 \<le> bs \<and> pc \<le> 4"
    using that by (intro initState_total) simp_all
  have a: "map (\<lambda>p. (row p, col p, score p)) (players stateA) = [(1, 1, 1), (6, 6, 1)]"
    "phase stateA = SELECT"
    by (simp_all add: stateA_simps)
  have b: "grid_get (visited stateA) 1 1 = Inr (Some BLOCKED)"
    "grid_get (visited stateA) 6 6 = Inr (Some BLOCKED)"
    by (simp_all add: stateA_simps grid_get_def js_index_def BLOCKED_def)
  from gen tot initState_A a b show ?thesis
    by blast
qed

theorem C7_witness:
  "(1::int) \<le> 10 \<and> (4::int) \<le> 4 \<and>
   (\<exists>s0. initState 10 7 4 3 rulesA = Inr s0 \<and>
      map (\<lambda>p. (row p, col p)) (players s0) = [(2, 2), (7, 7), (2, 7), (7, 2)] \<and>
      phase s0 = SELECT)"
proof -
  have "\<exists>s0. initState 10 7 4 3 rulesA = Inr s0"
    using C7_initState_corner_starts [of 10 7 4 3 rulesA] by simp
  then obtain s0 where s0: "initState 10 7 4 3 rulesA = Inr s0"
    by blast
  with C7_initState_corner_starts [of 10 7 4 3 rulesA s0]
  have "map (\<lambda>p. (row p, col p)) (players s0) = take (nat 4) [(2, 2), (7, 7), (2, 7), (7, 2)]"
    and "phase s0 = SELECT"
    by simp_all
  with s0 show ?thesis
    by auto
qed

subsection \<open>The score invariant\<close>

lemma reachable_invariant:
  "reachable s lg \<Longrightarrow>
   distinct (map pid (players s)) \<and>
   (\<forall>i<length (players s). score (players s ! i) = 1 + int (move_count (pid (players s ! i)) lg))"
proof (induction rule: reachable.induct)
  case (init bs sd pc cc ro s)
  from initState_players [OF init] show ?case
    by (simp add: move_count_def)
next
  case (submit s lg k r c)
  then show ?case by (simp add: submitMove_def)
next
  case (resolve s lg s' evs)
  from resolve.hyps(2) obtain ps' g' ms where
    lp: "resolve_loop (intended_of s) (destCount_of s) (players s) (visited s) = Inr (ps', g', evs, ms)"
    and s': "s' = s\<lparr>players := ps', visited := g', history := history s @ [(turn s, ms)],
             pendingMoves := Map.empty, turn := turn s + 1, phase := EVAL\<rparr>"
    by (rule resolveTurn_Inr)
  from resolve.IH have d: "distinct (map pid (players s))" by simp
  note fr = resolve_loop_frame [OF lp]
  note sc = resolve_loop_score [OF lp d]
  have "score (ps' ! i) = 1 + int (move_count (pid (ps' ! i)) (lg @ evs))" if "i < length ps'" for i
  proof -
    from that fr have i: "i < length (players s)" by simp
    from fr have "map pid ps' ! i = map pid (players s) ! i" by simp
    with i that have "pid (ps' ! i) = pid (players s ! i)" by simp
    with sc i resolve.IH show ?thesis
      by (simp add: move_count_append)
  qed
  with d fr show ?case by (simp add: s')
next
  case (evaluate s lg s' evs)
  note fr = evaluateState_frame [OF evaluate.hyps(2)]
  have len: "length (players s') = length (players s)"
    using fr(1) by (metis length_map)
  have "score (players s' ! i) = 1 + int (move_count (pid (players s' ! i)) (lg @ evs))"
    if "i < length (players s')" for i
  proof -
    from that len have i: "i < length (players s)" by simp
    from fr(1) have "map pid (players s') ! i = map pid (players s) ! i" by simp
    with i that have p: "pid (players s' ! i) = pid (players s ! i)" by simp
    from fr(2) have "map score (players s') ! i = map score (players s) ! i" by simp
    with i that have "score (players s' ! i) = score (players s ! i)" by simp
    with p i evaluate.IH fr(4) [of "pid (players s ! i)"] show ?thesis
      by (simp add: move_count_append)
  qed
  with evaluate.IH fr(1) show ?case by simp
qed

text \<open>
  Claim C4.  In every state reached from an initial state by \<open>submitMove\<close>,
  \<open>resolveTurn\<close> and \<open>evaluateState\<close>, the score of every player is 1 plus the number of
  move events, among all events emitted so far, that have the player as subject.
\<close>

theorem C4_score_invariant:
  assumes "reachable s lg" and "p \<in> set (players s)"
  shows "score p = 1 + int (move_count (pid p) lg)"
proof -
  from assms(2) obtain i where "i < length (players s)" "players s ! i = p"
    by (auto simp: in_set_conv_nth)
  with reachable_invariant [OF assms(1)] show ?thesis
    by auto
qed

theorem C4_witness:
  "reachable (stateA\<lparr>players := [playerA0\<lparr>row := 5, col := 5, score := 2\<rparr>, playerA1],
          visited := gridA[5 := (gridA ! 5)[5 := 1]],
          history := [(0, [(0, (1, 1), (5, 5))])], turn := 1, phase := EVAL\<rparr>)
      [Move 0 (1, 1) (5, 5)] \<and>
   score (playerA0\<lparr>row := 5, col := 5, score := 2\<rparr>) = 1 + int (move_count 0 [Move 0 (1, 1) (5, 5)]) \<and>
   move_count 0 [Move 0 (1, 1) (5, 5)] = 1"
proof -
  let ?s1 = "stateA\<lparr>players := [playerA0\<lparr>row := 5, col := 5, score := 2\<rparr>, playerA1],
          visited := gridA[5 := (gridA ! 5)[5 := 1]],
          history := [(0, [(0, (1, 1), (5, 5))])], turn := 1, phase := EVAL\<rparr>"
  have "reachable stateA []"
    using initState_A by (rule reachable.init)
  then have "reachable (submitMove stateA 0 5 5) []"
    by (rule reachable.submit)
  from reachable.resolve [OF this resolve_teleport]
  have r: "reachable ?s1 [Move 0 (1, 1) (5, 5)]"
    by simp
  have "playerA0\<lparr>row := 5, col := 5, score := 2\<rparr> \<in> set (players ?s1)"
    by simp
  from C4_score_invariant [OF r this] r show ?thesis
    by (simp add: playerA0_def move_count_def)
qed

subsection \<open>The grid only fills\<close>

lemma transition_grid_le: "transition s s' \<Longrightarrow> grid_le (visited s) (visited s')"
proof (induction rule: transition.induct)
  case (t_submit s k r c)
  show ?case by (simp add: submitMove_def grid_le_refl)
next
  case (t_resolve s s' evs)
  then obtain ps' g' ms where
    lp: "resolve_loop (intended_of s) (destCount_of s) (players s) (visited s) = Inr (ps', g', evs, ms)"
    and s': "s' = s\<lparr>players := ps', visited := g', history := history s @ [(turn s, ms)],
             pendingMoves := Map.empty, turn := turn s + 1, phase := EVAL\<rparr>"
    by (rule resolveTurn_Inr)
  from resolve_loop_frame [OF lp] show ?case by (simp add: s')
next
  case (t_evaluate s s' evs)
  from evaluateState_frame(3) [OF this] show ?case by (simp add: grid_le_refl)
qed

lemma transitions_grid_le: "transition\<^sup>*\<^sup>* s s' \<Longrightarrow> grid_le (visited s) (visited s')"
proof (induction rule: rtranclp_induct)
  case base
  show ?case by (rule grid_le_refl)
next
  case (step y z)
  from step.IH transition_grid_le [OF step.hyps(2)] show ?case
    by (rule grid_le_trans)
qed

text \<open>
  Claim C5.  Along any sequence of transitions (\<open>submitMove\<close>, \<open>resolveTurn\<close>,
  \<open>evaluateState\<close>), from any state, a cell that holds a marker other than EMPTY holds the
  same marker ever after: it never returns to EMPTY and is never marked a second time.
\<close>

theorem C5_grid_monotone:
  assumes "transition\<^sup>*\<^sup>* s s'"
    and "grid_get (visited s) r c = Inr (Some v)" and "v \<noteq> EMPTY"
  shows "grid_get (visited s') r c = Inr (Some v)"
proof -
  have "Some v \<noteq> Some EMPTY" using assms(3) by simp
  with transitions_grid_le [OF assms(1)] assms(2) show ?thesis
    by (rule grid_le_get)
qed

theorem C5_witness:
  "transition\<^sup>*\<^sup>* stateA
      (stateA\<lparr>players := [playerA0\<lparr>row := 5, col := 5, score := 2\<rparr>, playerA1],
          visited := gridA[5 := (gridA ! 5)[5 := 1]],
          history := [(0, [(0, (1, 1), (5, 5))])], turn := 1, phase := EVAL\<rparr>) \<and>
   grid_get (visited stateA) 1 1 = Inr (Some 1) \<and> (1::int) \<noteq> EMPTY \<and>
   grid_get (gridA[5 := (gridA ! 5)[5 := 1]]) 1 1 = Inr (Some 1)"
proof -
  let ?s1 = "stateA\<lparr>players := [playerA0\<lparr>row := 5, col := 5, score := 2\<rparr>, playerA1],
          visited := gridA[5 := (gridA ! 5)[5 := 1]],
          history := [(0, [(0, (1, 1), (5, 5))])], turn := 1, phase := EVAL\<rparr>"
  have "transition stateA (submitMove stateA 0 5 5)"
    by (rule transition.t_submit)
  moreover have "transition (submitMove stateA 0 5 5) ?s1"
    using resolve_teleport by (rule transition.t_resolve)
  ultimately have t: "transition\<^sup>*\<^sup>* stateA ?s1"
    by simp
  have g: "grid_get (visited stateA) 1 1 = Inr (Some 1)" "(1::int) \<noteq> EMPTY"
    by (simp_all add: stateA_simps grid_get_def js_index_def EMPTY_def)
  from C5_grid_monotone [OF t g] t g show ?thesis
    by simp
qed

section \<open>A game on the 3x3 board\<close>

lemmas evaluate_eval = evaluateState_def eliminate_step_def Let_def legal_eval

lemmas stateK_simps = stateK_def playerK0_def playerK1_def

lemma initState_K: "initState 3 42 2 0 rulesA = Inr stateK"
proof -
  have p: "init_players 2 2 [(0, 0), (2, 2)] 0 = Inr [playerK0, playerK1]"
    by (simp add: init_players.simps js_index_def stateK_simps)
  have g: "makeGrid 3 = [[0, 0, 0], [0, 0, 0], [0, 0, 0]]"
    by (simp add: makeGrid_def EMPTY_def numeral_eq_Suc)
  have x: "makeRng 42 = 42"
    by (simp add: makeRng_def)
  show ?thesis
    by (simp add: initState_def Let_def defaultStartPositions_def js_slice0_def merge_rules_def
        rulesA_def placeObstacles_def place_loop.simps p g x stateK_simps
        grid_set_def js_index_def BLOCKED_def)
qed

lemma round1_K:
  "play_round (submit_all stateK [(0, 1, 2), (1, 1, 0)]) =
   Inr (stateK1, [Move 0 (0, 0) (1, 2), Move 1 (2, 2) (1, 0)])"
proof -
  have "resolveTurn (submit_all stateK [(0, 1, 2), (1, 1, 0)]) =
      Inr (stateK1\<lparr>phase := EVAL\<rparr>, [Move 0 (0, 0) (1, 2), Move 1 (2, 2) (1, 0)])"
    by (simp add: resolve_eval stateK_simps stateK1_def)
  moreover have "evaluateState (stateK1\<lparr>phase := EVAL\<rparr>) = Inr (stateK1, [])"
    by (simp add: evaluate_eval stateK_simps stateK1_def)
  ultimately show ?thesis
    by (simp add: play_round_def)
qed

lemma round2_K:
  "play_round (submit_all stateK1 [(0, 2, 0), (1, 0, 2)]) =
   Inr (stateK2, [Move 0 (1, 2) (2, 0), Move 1 (1, 0) (0, 2)])"
proof -
  have "resolveTurn (submit_all stateK1 [(0, 2, 0), (1, 0, 2)]) =
      Inr (stateK2\<lparr>phase := EVAL\<rparr>, [Move 0 (1, 2) (2, 0), Move 1 (1, 0) (0, 2)])"
    by (simp add: resolve_eval stateK_simps stateK1_def stateK2_def)
  moreover have "evaluateState (stateK2\<lparr>phase := EVAL\<rparr>) = Inr (stateK2, [])"
    by (simp add: evaluate_eval stateK_simps stateK2_def)
  ultimately show ?thesis
    by (simp add: play_round_def)
qed

lemma resolve3_K:
  "resolveTurn (submit_all stateK2 [(0, 0, 1)]) = Inr (stateC, [Move 0 (2, 0) (0, 1)])"
  by (simp add: resolve_eval stateK_simps stateK2_def stateC_def historyC_def)

lemma evaluate_C: "evaluateState stateC = Inr (stateG, [Elimination 0 4, Winner 1])"
  by (simp add: evaluate_eval stateK_simps stateC_def stateG_def)

lemma round3_K:
  "play_round (submit_all stateK2 [(0, 0, 1)]) =
   Inr (stateG, [Move 0 (2, 0) (0, 1), Elimination 0 4, Winner 1])"
  unfolding play_round_def resolve3_K by (simp add: evaluate_C)

lemma stateC_reached: "transition\<^sup>*\<^sup>* stateK stateC"
proof -
  have t: "transition\<^sup>*\<^sup>* s (submit_all s subs)" for s subs
  proof (induction s subs rule: submit_all.induct)
    case (1 s)
    show ?case by simp
  next
    case (2 s k r c xs)
    have "transition s (submitMove s k r c)" by (rule transition.t_submit)
    with 2 show ?case by simp
  qed
  have r: "transition\<^sup>*\<^sup>* s s'" if "play_round (submit_all s subs) = Inr (s', evs)" for s subs s' evs
  proof -
    from that obtain s1 ev1 ev2 where
      "resolveTurn (submit_all s subs) = Inr (s1, ev1)" "evaluateState s1 = Inr (s', ev2)"
      by (auto simp: play_round_def split: sum.splits)
    then have "transition (submit_all s subs) s1" "transition s1 s'"
      by (auto intro: transition.t_resolve transition.t_evaluate)
    with t [of s subs] show ?thesis by simp
  qed
  have "transition\<^sup>*\<^sup>* stateK stateK1" using round1_K by (rule r)
  moreover have "transition\<^sup>*\<^sup>* stateK1 stateK2" using round2_K by (rule r)
  moreover have "transition\<^sup>*\<^sup>* stateK2 (submit_all stateK2 [(0, 0, 1)])" by (rule t)
  moreover have "transition (submit_all stateK2 [(0, 0, 1)]) stateC"
    using resolve3_K by (rule transition.t_resolve)
  ultimately show ?thesis by simp
qed

subsection \<open>Who is stuck in the example states\<close>

lemma evaluateState_shape:
  "evaluateState s = Inr (s', evs) \<Longrightarrow> s' = s\<lparr>players := players s', phase := phase s'\<rparr>"
  by (auto simp: evaluateState_def Let_def split: sum.splits if_splits)

lemma stuck_B: "stuck stateB playerB0" "stuck stateB playerB1"
proof -
  have "getLegalMoves (row playerB0) (col playerB0) (boardSize stateB) (visited stateB) = Inr []"
    by (simp add: stateB_simps legal_eval)
  from stuck_iff [OF this] show "stuck stateB playerB0" by simp
  have "getLegalMoves (row playerB1) (col playerB1) (boardSize stateB) (visited stateB) = Inr []"
    by (simp add: stateB_simps legal_eval)
  from stuck_iff [OF this] show "stuck stateB playerB1" by simp
qed

lemma not_stuck_A: "\<not> stuck stateA playerA0" "\<not> stuck stateA playerA1"
proof -
  have "legal_destination stateA playerA0 (2, 3)"
    by (simp add: legal_destination_def knight_offset_def stateA_simps inBounds_def grid_get_def
        js_index_def EMPTY_def)
  then show "\<not> stuck stateA playerA0" by (auto simp: stuck_def)
  have "legal_destination stateA playerA1 (4, 5)"
    by (simp add: legal_destination_def knight_offset_def stateA_simps inBounds_def grid_get_def
        js_index_def EMPTY_def)
  then show "\<not> stuck stateA playerA1" by (auto simp: stuck_def)
qed

text \<open>
  In \<open>stateC\<close> player 0 stands on (0,1): its knight cells in bounds are (2,0) and (2,2),
  both marked, so it is stuck.  Player 1 stands on (0,2) and can still go to (2,1).
\<close>

lemma stuck_C:
  "stuck stateC (playerK0\<lparr>row := 0, col := 1, score := 4\<rparr>)"
  "legal_destination stateC (playerK1\<lparr>row := 0, col := 2, score := 3\<rparr>) (2, 1)"
  "\<not> stuck stateC (playerK1\<lparr>row := 0, col := 2, score := 3\<rparr>)"
proof -
  have "getLegalMoves (row (playerK0\<lparr>row := 0, col := 1, score := 4\<rparr>))
      (col (playerK0\<lparr>row := 0, col := 1, score := 4\<rparr>)) (boardSize stateC) (visited stateC) = Inr []"
    by (simp add: stateC_def stateK_simps legal_eval)
  from stuck_iff [OF this] show "stuck stateC (playerK0\<lparr>row := 0, col := 1, score := 4\<rparr>)"
    by simp
  show l: "legal_destination stateC (playerK1\<lparr>row := 0, col := 2, score := 3\<rparr>) (2, 1)"
    by (simp add: legal_destination_def knight_offset_def stateC_def stateK_simps inBounds_def
        grid_get_def js_index_def EMPTY_def)
  then show "\<not> stuck stateC (playerK1\<lparr>row := 0, col := 2, score := 3\<rparr>)"
    by (auto simp: stuck_def)
qed

section \<open>Claim about evaluation\<close>

text \<open>
  Claim C6.  On a state whose grid has at least \<open>boardSize\<close> rows, \<open>evaluateState\<close>
  returns, and: every ALIVE player that is stuck (no cell a knight offset away from it is
  in bounds and EMPTY) is set to ELIMINATED and gets an elimination event with its score,
  in player order.  Then, if exactly one player is still
  ALIVE, it becomes WINNER, one winner event for it follows, and the phase is GAMEOVER; if
  none is still ALIVE, every player whose score is the maximum score of all players
  becomes WINNER, with one winner event each in player order, and the phase is GAMEOVER;
  otherwise nothing more changes and the phase is SELECT.
\<close>

theorem C6_evaluateState_outcomes:
  assumes "boardSize s \<le> int (length (visited s))"
  shows "\<exists>s' evs. evaluateState s = Inr (s', evs) \<and>
     (length (survivors s) = 1 \<longrightarrow>
        phase s' = GAMEOVER \<and>
        players s' = map (\<lambda>p. if status (after_elimination s p) = ALIVE
                               then p\<lparr>status := WINNER\<rparr> else after_elimination s p) (players s) \<and>
        evs = elimination_events s @ [Winner (pid (hd (survivors s)))]) \<and>
     (length (survivors s) = 0 \<longrightarrow>
        phase s' = GAMEOVER \<and>
        players s' = map (\<lambda>p. if score p = Max (score ` set (players s))
                               then p\<lparr>status := WINNER\<rparr> else after_elimination s p) (players s) \<and>
        evs = elimination_events s @
              map (\<lambda>p. Winner (pid p))
                (filter (\<lambda>p. score p = Max (score ` set (players s))) (players s))) \<and>
     (1 < length (survivors s) \<longrightarrow>
        phase s' = SELECT \<and>
        players s' = map (after_elimination s) (players s) \<and>
        evs = elimination_events s)"
proof -
  have mx: "js_max (map score (players s)) = Some (Max (score ` set (players s)))"
    if "players s \<noteq> []"
    using that by (simp add: js_max_Max)
  consider (one) "length (survivors s) = 1" | (none) "length (survivors s) = 0"
    | (more) "1 < length (survivors s)"
    by arith
  then show ?thesis
  proof cases
    case one
    then show ?thesis
      by (simp add: evaluateState_eq [OF assms])
  next
    case more
    then have "survivors s \<noteq> []" by auto
    with more show ?thesis
      by (simp add: evaluateState_eq [OF assms])
  next
    case none
    show ?thesis
    proof (cases "players s = []")
      case True
      with none show ?thesis
        by (simp add: evaluateState_eq [OF assms])
    next
      case False
      with none mx show ?thesis
        by (simp add: evaluateState_eq [OF assms])
    qed
  qed
qed

theorem C6_witness:
  "boardSize stateC \<le> int (length (visited stateC)) \<and>
   grid_get (visited stateC) 2 0 = Inr (Some BLOCKED) \<and>
   grid_get (visited stateC) 2 2 = Inr (Some BLOCKED) \<and>
   stuck stateC (playerK0\<lparr>row := 0, col := 1, score := 4\<rparr>) \<and>
   legal_destination stateC (playerK1\<lparr>row := 0, col := 2, score := 3\<rparr>) (2, 1) \<and>
   evaluateState stateC = Inr (stateG, [Elimination 0 4, Winner 1]) \<and>
   boardSize stateB \<le> int (length (visited stateB)) \<and>
   evaluateState stateB =
     Inr (stateB\<lparr>players := [playerB0\<lparr>status := WINNER\<rparr>, playerB1\<lparr>status := WINNER\<rparr>],
                 phase := GAMEOVER\<rparr>,
          [Elimination 0 1, Elimination 1 1, Winner 0, Winner 1]) \<and>
   boardSize stateA \<le> int (length (visited stateA)) \<and>
   evaluateState stateA = Inr (stateA\<lparr>phase := SELECT\<rparr>, [])"
proof -
  let ?c0 = "playerK0\<lparr>row := 0, col := 1, score := 4\<rparr>"
  let ?c1 = "playerK1\<lparr>row := 0, col := 2, score := 3\<rparr>"
  have c: "boardSize stateC \<le> int (length (visited stateC))"
    by (simp add: stateC_def stateK_def)
  have gc: "grid_get (visited stateC) 2 0 = Inr (Some BLOCKED)"
    "grid_get (visited stateC) 2 2 = Inr (Some BLOCKED)"
    by (simp_all add: stateC_def stateK_def grid_get_def js_index_def BLOCKED_def)
  have pc: "players stateC = [?c0, ?c1]" "status ?c0 = ALIVE" "status ?c1 = ALIVE"
    "pid ?c0 = 0" "pid ?c1 = 1" "score ?c0 = 4"
    by (simp_all add: stateC_def stateK_simps)
  have sc: "survivors stateC = [?c1]" "elimination_events stateC = [Elimination 0 4]"
    "map (after_elimination stateC) (players stateC) = [?c0\<lparr>status := ELIMINATED\<rparr>, ?c1]"
    using stuck_C(1,3) pc
    by (simp_all add: survivors_def elimination_events_def after_elimination_def)
  from C6_evaluateState_outcomes [OF c] obtain s' evs where
    rc: "evaluateState stateC = Inr (s', evs)" and
    "phase s' = GAMEOVER \<and>
        players s' = map (\<lambda>p. if status (after_elimination stateC p) = ALIVE
                               then p\<lparr>status := WINNER\<rparr> else after_elimination stateC p) (players stateC) \<and>
        evs = elimination_events stateC @ [Winner (pid (hd (survivors stateC)))]"
    using sc(1) by auto
  then have "phase s' = GAMEOVER" "players s' = [?c0\<lparr>status := ELIMINATED\<rparr>, ?c1\<lparr>status := WINNER\<rparr>]"
    "evs = [Elimination 0 4, Winner 1]"
    using stuck_C(1,3) pc by (simp_all add: sc after_elimination_def)
  with evaluateState_shape [OF rc] rc
  have ec: "evaluateState stateC = Inr (stateG, [Elimination 0 4, Winner 1])"
    by (simp add: stateG_def stateC_def)
  have b: "boardSize stateB \<le> int (length (visited stateB))"
    by (simp add: stateB_def)
  have sb: "survivors stateB = []"
    "elimination_events stateB = [Elimination 0 1, Elimination 1 1]"
    "map (after_elimination stateB) (players stateB) =
       [playerB0\<lparr>status := ELIMINATED\<rparr>, playerB1\<lparr>status := ELIMINATED\<rparr>]"
    using stuck_B
    by (simp_all add: survivors_def elimination_events_def after_elimination_def stateB_simps)
  have mb: "Max (score ` set (players stateB)) = 1"
    by (simp add: stateB_simps)
  from C6_evaluateState_outcomes [OF b] obtain s' evs where
    rb: "evaluateState stateB = Inr (s', evs)" and
    "phase s' = GAMEOVER \<and>
        players s' = map (\<lambda>p. if score p = Max (score ` set (players stateB))
                               then p\<lparr>status := WINNER\<rparr> else after_elimination stateB p) (players stateB) \<and>
        evs = elimination_events stateB @
              map (\<lambda>p. Winner (pid p))
                (filter (\<lambda>p. score p = Max (score ` set (players stateB))) (players stateB))"
    using sb(1) by auto
  then have "phase s' = GAMEOVER"
    "players s' = [playerB0\<lparr>status := WINNER\<rparr>, playerB1\<lparr>status := WINNER\<rparr>]"
    "evs = [Elimination 0 1, Elimination 1 1, Winner 0, Winner 1]"
    unfolding mb sb(2) by (simp_all add: stateB_simps)
  with evaluateState_shape [OF rb] rb have eb: "evaluateState stateB =
     Inr (stateB\<lparr>players := [playerB0\<lparr>status := WINNER\<rparr>, playerB1\<lparr>status := WINNER\<rparr>],
                 phase := GAMEOVER\<rparr>,
          [Elimination 0 1, Elimination 1 1, Winner 0, Winner 1])"
    by simp
  have a: "boardSize stateA \<le> int (length (visited stateA))"
    by (simp add: stateA_simps)
  have sa: "survivors stateA = [playerA0, playerA1]" "elimination_events stateA = []"
    "map (after_elimination stateA) (players stateA) = players stateA"
    using not_stuck_A
    by (simp_all add: survivors_def elimination_events_def after_elimination_def stateA_def
        playerA0_def playerA1_def)
  from C6_evaluateState_outcomes [OF a] obtain s' evs where
    ra: "evaluateState stateA = Inr (s', evs)" and
    "phase s' = SELECT \<and> players s' = map (after_elimination stateA) (players stateA) \<and>
        evs = elimination_events stateA"
    using sa(1) by auto
  then have "phase s' = SELECT" "players s' = players stateA" "evs = []"
    unfolding sa by simp_all
  with evaluateState_shape [OF ra] ra
  have ea: "evaluateState stateA = Inr (stateA\<lparr>phase := SELECT\<rparr>, [])"
    by simp
  from c gc stuck_C(1,2) ec b eb a ea show ?thesis
    by (intro conjI)
qed

section \<open>Runs of rounds\<close>

lemma submit_all_frame:
  "visited (submit_all s subs) = visited s" "players (submit_all s subs) = players s"
  "boardSize (submit_all s subs) = boardSize s"
  by (induction s subs rule: submit_all.induct) (simp_all add: submitMove_def)

lemma play_round_empties:
  assumes "play_round s = Inr (s', evs)"
  shows "empties (visited s') + moves_in evs = empties (visited s)"
proof -
  from assms obtain s1 ev1 ev2 where
    r: "resolveTurn s = Inr (s1, ev1)" and e: "evaluateState s1 = Inr (s', ev2)"
    and evs: "evs = ev1 @ ev2"
    by (auto simp: play_round_def split: sum.splits)
  from r obtain ps' g' ms where
    lp: "resolve_loop (intended_of s) (destCount_of s) (players s) (visited s) = Inr (ps', g', ev1, ms)"
    and s1: "s1 = s\<lparr>players := ps', visited := g', history := history s @ [(turn s, ms)],
             pendingMoves := Map.empty, turn := turn s + 1, phase := EVAL\<rparr>"
    by (rule resolveTurn_Inr)
  from resolve_loop_empties [OF lp] have "empties (visited s1) + moves_in ev1 = empties (visited s)"
    by (simp add: s1)
  with evaluateState_frame(3,5) [OF e] show ?thesis
    by (simp add: evs moves_in_append)
qed

lemma run_rounds_empties:
  "run_rounds s subss = Inr tr \<Longrightarrow>
   sum_list (map (\<lambda>(s', evs). moves_in evs) tr) \<le> empties (visited s)"
proof (induction subss arbitrary: s tr)
  case Nil
  then show ?case by simp
next
  case (Cons subs rest)
  from Cons.prems obtain s' evs tr' where
    pr: "play_round (submit_all s subs) = Inr (s', evs)" and
    rr: "run_rounds s' rest = Inr tr'" and tr: "tr = (s', evs) # tr'"
    by (auto split: sum.splits)
  from play_round_empties [OF pr] have "empties (visited s') + moves_in evs = empties (visited s)"
    by (simp add: submit_all_frame)
  with Cons.IH [OF rr] show ?case
    by (simp add: tr)
qed

lemma rounds_with_moves_le:
  "length (filter (\<lambda>(s', evs). 0 < moves_in evs) tr) \<le> sum_list (map (\<lambda>(s', evs). moves_in evs) tr)"
  by (induction tr) auto

lemma mark_cells_Nil:
  assumes "mark_cells [] cs v = Inr g'"
  shows "cs = [] \<and> g' = []"
proof (cases cs)
  case Nil
  with assms show ?thesis by simp
next
  case (Cons x xs)
  obtain r c where x: "x = (r, c)" by (cases x)
  have "grid_set [] r c v = Inl TypeError"
    by (simp add: grid_set_def js_index_def)
  with assms Cons x show ?thesis by simp
qed

lemma initState_empties:
  assumes "initState bs sd pc cc ro = Inr s"
  shows "empties (visited s) + length (obstacles s) \<le> nat bs * nat bs"
proof -
  let ?starts = "defaultStartPositions pc bs"
  from assms obtain g1 where
    ps: "init_players pc (max 1 (pc - cc)) ?starts 0 = Inr (players s)" and
    g1: "mark_cells (makeGrid bs) (map (\<lambda>p. (row p, col p)) (players s)) BLOCKED = Inr g1" and
    g2: "mark_cells g1 (obstacles s) OBSTACLE = Inr (visited s)" and
    ob: "obstacles s = fst (placeObstacles bs (makeRng sd) ?starts (obstacleCount (merge_rules ro)))"
    by (rule initState_Inr)
  show ?thesis
  proof (cases "1 \<le> bs")
    case False
    then have "makeGrid bs = []" by (simp add: makeGrid_def)
    with g1 have "g1 = []" using mark_cells_Nil by metis
    with g2 have "obstacles s = []" "visited s = []" using mark_cells_Nil by metis+
    then show ?thesis by (simp add: empties_def)
  next
    case True
    note po = placeObstacles_props [OF True, of "makeRng sd" ?starts "obstacleCount (merge_rules ro)", folded ob]
    have "grid_get g1 r c = Inr (Some EMPTY)" if "(r, c) \<in> set (obstacles s)" for r c
    proof -
      from that po(2) have inb: "inBounds r c bs" and "(r, c) \<notin> set ?starts" by auto
      with init_players_positions(2) [OF ps] have "(r, c) \<notin> set (map (\<lambda>p. (row p, col p)) (players s))"
        by blast
      with mark_cells_get [OF g1] inb show ?thesis
        by (simp add: grid_get_makeGrid inBounds_def)
    qed
    then have "\<forall>(r, c)\<in>set (obstacles s). grid_get g1 r c = Inr (Some EMPTY)"
      by auto
    from mark_cells_empties [OF g2 _ po(1) this]
    have "empties (visited s) + length (obstacles s) = empties g1"
      by (simp add: OBSTACLE_def EMPTY_def)
    moreover from mark_cells_empties_le [OF g1] have "empties g1 \<le> empties (makeGrid bs)"
      by (simp add: BLOCKED_def EMPTY_def)
    ultimately show ?thesis
      by (simp add: empties_makeGrid)
  qed
qed

lemma idle_round_A:
  "play_round (stateA\<lparr>history := h, turn := t\<rparr>) =
   Inr (stateA\<lparr>history := h @ [(t, [])], turn := t + 1\<rparr>, [])"
proof -
  have "resolveTurn (stateA\<lparr>history := h, turn := t\<rparr>) =
      Inr (stateA\<lparr>history := h @ [(t, [])], turn := t + 1, phase := EVAL\<rparr>, [])"
    by (simp add: resolveTurn_def Let_def resolve_step_def stateA_simps)
  moreover have "evaluateState (stateA\<lparr>history := h @ [(t, [])], turn := t + 1, phase := EVAL\<rparr>) =
      Inr (stateA\<lparr>history := h @ [(t, [])], turn := t + 1\<rparr>, [])"
    by (simp add: evaluate_eval stateA_simps)
  ultimately show ?thesis
    by (simp add: play_round_def)
qed

lemma idle_rounds_A:
  "\<exists>tr. run_rounds (stateA\<lparr>history := h, turn := t\<rparr>) (replicate n []) = Inr tr \<and>
        map (\<lambda>(s, evs). phase s) tr = replicate n SELECT"
proof (induction n arbitrary: h t)
  case 0
  show ?case by simp
next
  case (Suc n)
  let ?s1 = "stateA\<lparr>history := h @ [(t, [])], turn := t + 1\<rparr>"
  from Suc [where h="h @ [(t, [])]" and t="t + 1"] obtain tr where
    rr: "run_rounds ?s1 (replicate n []) = Inr tr" and
    ph: "map (\<lambda>(s, evs). phase s) tr = replicate n SELECT"
    by blast
  have pr: "play_round (submit_all (stateA\<lparr>history := h, turn := t\<rparr>) []) = Inr (?s1, [])"
    by (simp only: submit_all.simps idle_round_A)
  have "run_rounds (stateA\<lparr>history := h, turn := t\<rparr>) (replicate (Suc n) []) = Inr ((?s1, []) # tr)"
    by (simp only: replicate_Suc run_rounds.simps pr rr sum.case prod.case)
  moreover have "phase ?s1 = SELECT"
    by (simp add: stateA_def)
  ultimately show ?case
    using ph by simp
qed

lemma stateA_fields: "stateA\<lparr>history := [], turn := 0\<rparr> = stateA"
  by (simp add: stateA_def)

lemma move_round_A:
  "play_round (submit_all stateA [(0, 2, 3), (1, 4, 5)]) =
   Inr (stateA\<lparr>players := [playerA0\<lparr>row := 2, col := 3, score := 2\<rparr>,
                           playerA1\<lparr>row := 4, col := 5, score := 2\<rparr>],
          visited := (gridA[2 := (gridA ! 2)[3 := 1]])[4 := (gridA ! 4)[5 := 1]],
          history := [(0, [(0, (1, 1), (2, 3)), (1, (6, 6), (4, 5))])], turn := 1\<rparr>,
        [Move 0 (1, 1) (2, 3), Move 1 (6, 6) (4, 5)])"
proof -
  have "resolveTurn (submit_all stateA [(0, 2, 3), (1, 4, 5)]) =
   Inr (stateA\<lparr>players := [playerA0\<lparr>row := 2, col := 3, score := 2\<rparr>,
                           playerA1\<lparr>row := 4, col := 5, score := 2\<rparr>],
          visited := (gridA[2 := (gridA ! 2)[3 := 1]])[4 := (gridA ! 4)[5 := 1]],
          history := [(0, [(0, (1, 1), (2, 3)), (1, (6, 6), (4, 5))])], turn := 1, phase := EVAL\<rparr>,
        [Move 0 (1, 1) (2, 3), Move 1 (6, 6) (4, 5)])"
    by (simp add: resolve_eval stateA_simps)
  moreover have "evaluateState (stateA\<lparr>players := [playerA0\<lparr>row := 2, col := 3, score := 2\<rparr>,
                           playerA1\<lparr>row := 4, col := 5, score := 2\<rparr>],
          visited := (gridA[2 := (gridA ! 2)[3 := 1]])[4 := (gridA ! 4)[5 := 1]],
          history := [(0, [(0, (1, 1), (2, 3)), (1, (6, 6), (4, 5))])], turn := 1, phase := EVAL\<rparr>) =
    Inr (stateA\<lparr>players := [playerA0\<lparr>row := 2, col := 3, score := 2\<rparr>,
                           playerA1\<lparr>row := 4, col := 5, score := 2\<rparr>],
          visited := (gridA[2 := (gridA ! 2)[3 := 1]])[4 := (gridA ! 4)[5 := 1]],
          history := [(0, [(0, (1, 1), (2, 3)), (1, (6, 6), (4, 5))])], turn := 1\<rparr>, [])"
    by (simp add: evaluate_eval stateA_simps)
  ultimately show ?thesis
    by (simp add: play_round_def)
qed

section \<open>Strategies\<close>

lemma grid_set_restore:
  assumes "grid_get g r c = Inr (Some v)"
  shows "\<exists>g1. grid_set g r c w = Inr g1 \<and> length g1 = length g \<and> grid_restore g1 r c (Some v) = Inr g"
proof -
  from assms have rng: "0 \<le> r" "nat r < length g" "0 \<le> c" "nat c < length (g ! nat r)"
    and val: "g ! nat r ! nat c = v"
    by (simp_all add: grid_get_Some)
  let ?g1 = "g[nat r := (g ! nat r)[nat c := w]]"
  have s1: "grid_set g r c w = Inr ?g1"
    using assms by (rule grid_set_on_cell)
  have "grid_get ?g1 r c = Inr (Some w)"
    using rng by (simp add: grid_get_Some)
  then have "grid_set ?g1 r c v = Inr (?g1[nat r := (?g1 ! nat r)[nat c := v]])"
    by (rule grid_set_on_cell)
  moreover have "?g1[nat r := (?g1 ! nat r)[nat c := v]] = g"
  proof -
    have "(g ! nat r)[nat c := v] = g ! nat r"
      unfolding val [symmetric] by (rule list_update_id)
    then have e: "g[nat r := (g ! nat r)[nat c := v]] = g[nat r := g ! nat r]"
      by (rule arg_cong)
    have "?g1[nat r := (?g1 ! nat r)[nat c := v]] = g[nat r := (g ! nat r)[nat c := v]]"
      using rng(2) by simp
    also note e
    also have "g[nat r := g ! nat r] = g"
      by (rule list_update_id)
    finally show ?thesis .
  qed
  ultimately show ?thesis
    using s1 by (simp add: grid_restore_def)
qed

lemma countMobility_total:
  "sz \<le> int (length g) \<Longrightarrow> \<exists>n. countMobility r c sz g = Inr n"
  using getLegalMoves_total [of sz g r c] by (auto simp: countMobility_def)

lemma opponent_mobilities_total:
  "sz \<le> int (length g) \<Longrightarrow> \<exists>bs. opponent_mobilities opps sz g = Inr bs"
proof (induction opps)
  case Nil
  show ?case by simp
next
  case (Cons opp opps)
  from countMobility_total [OF Cons.prems] obtain n where
    "countMobility (row opp) (col opp) sz g = Inr n" by blast
  moreover from Cons obtain bs where "opponent_mobilities opps sz g = Inr bs" by blast
  ultimately show ?case by simp
qed

lemma scoreMobility_frame:
  assumes "boardSize s \<le> int (length (visited s))" "grid_get (visited s) r c = Inr (Some v)"
  shows "\<exists>mob. scoreMobility s r c = Inr (mob, s)"
proof -
  from grid_set_restore [OF assms(2), of 1] obtain g1 where
    g1: "grid_set (visited s) r c 1 = Inr g1" "length g1 = length (visited s)"
      "grid_restore g1 r c (Some v) = Inr (visited s)"
    by blast
  from assms(1) g1(2) have "boardSize s \<le> int (length g1)" by simp
  from countMobility_total [OF this] obtain n where "countMobility r c (boardSize s) g1 = Inr n"
    by blast
  with assms(2) g1 show ?thesis
    by (simp add: scoreMobility_def)
qed

lemma coin_frame: "snd (coin s) = s\<lparr>rng := rng (snd (coin s))\<rparr>"
  "visited (snd (coin s)) = visited s" "boardSize (snd (coin s)) = boardSize s"
  by (simp_all add: coin_def)

lemma mobility_loop_frame:
  "boardSize s \<le> int (length (visited s)) \<Longrightarrow>
   (\<forall>(r, c)\<in>set ms. \<exists>v. grid_get (visited s) r c = Inr (Some v)) \<Longrightarrow>
   \<exists>best' s'. mobility_loop ms s best bestScore = Inr (best', s') \<and> s' = s\<lparr>rng := rng s'\<rparr>"
proof (induction ms arbitrary: s best bestScore)
  case Nil
  show ?case by simp
next
  case (Cons m ms)
  obtain r c where m: "m = (r, c)" by (cases m)
  with Cons.prems(2) obtain v where "grid_get (visited s) r c = Inr (Some v)" by auto
  from scoreMobility_frame [OF Cons.prems(1) this] obtain mob where
    sm: "scoreMobility s r c = Inr (mob, s)" by blast
  have rest: "\<forall>(r, c)\<in>set ms. \<exists>v. grid_get (visited s) r c = Inr (Some v)"
    using Cons.prems(2) by simp
  have plain: "\<exists>best' s'. mobility_loop ms s b bs = Inr (best', s') \<and> s' = s\<lparr>rng := rng s'\<rparr>" for b bs
    by (rule Cons.IH [OF Cons.prems(1) rest])
  have flipped: "\<exists>best' s'. mobility_loop ms (snd (coin s)) b bs = Inr (best', s') \<and> s' = s\<lparr>rng := rng s'\<rparr>" for b bs
  proof -
    have "\<exists>best' s'. mobility_loop ms (snd (coin s)) b bs = Inr (best', s') \<and>
        s' = (snd (coin s))\<lparr>rng := rng s'\<rparr>"
      using Cons.prems(1) rest by (intro Cons.IH) (simp_all add: coin_frame(2,3))
    then obtain best' s' where "mobility_loop ms (snd (coin s)) b bs = Inr (best', s')"
      "s' = (snd (coin s))\<lparr>rng := rng s'\<rparr>" by blast
    moreover from this(2) have "s' = s\<lparr>rng := rng s'\<rparr>"
      by (subst (asm) coin_frame(1)) simp
    ultimately show ?thesis by blast
  qed
  show ?case
    unfolding m mobility_loop.simps sm sum.case prod.case
    using plain flipped by (simp split: if_splits)
qed

lemma candidate_step:
  assumes "boardSize s \<le> int (length (visited s))" "grid_get (visited s) r c = Inr (Some v)"
  obtains g1 befores own where
    "grid_set (visited s) r c 1 = Inr g1"
    "opponent_mobilities opps (boardSize s) g1 = Inr befores"
    "countMobility r c (boardSize s) g1 = Inr own"
    "grid_restore g1 r c (Some v) = Inr (visited s)"
proof -
  from grid_set_restore [OF assms(2), of 1] obtain g1 where
    g1: "grid_set (visited s) r c 1 = Inr g1" "length g1 = length (visited s)"
      "grid_restore g1 r c (Some v) = Inr (visited s)"
    by blast
  from assms(1) g1(2) have le: "boardSize s \<le> int (length g1)" by simp
  from countMobility_total [OF le] obtain own where "countMobility r c (boardSize s) g1 = Inr own"
    by blast
  moreover from opponent_mobilities_total [OF le] obtain befores where
    "opponent_mobilities opps (boardSize s) g1 = Inr befores"
    by blast
  ultimately show ?thesis
    using g1 that by blast
qed

lemma aggressor_loop_frame:
  "boardSize s \<le> int (length (visited s)) \<Longrightarrow>
   (\<forall>(r, c)\<in>set ms. \<exists>v. grid_get (visited s) r c = Inr (Some v)) \<Longrightarrow>
   \<exists>best' s'. aggressor_loop opps ms s best bestScore = Inr (best', s') \<and> s' = s\<lparr>rng := rng s'\<rparr>"
proof (induction ms arbitrary: s best bestScore)
  case Nil
  show ?case by simp
next
  case (Cons m ms)
  obtain r c where m: "m = (r, c)" by (cases m)
  with Cons.prems(2) obtain v where get: "grid_get (visited s) r c = Inr (Some v)" by auto
  from candidate_step [OF Cons.prems(1) get, of opps] obtain g1 befores own where
    st: "grid_set (visited s) r c 1 = Inr g1"
    "opponent_mobilities opps (boardSize s) g1 = Inr befores"
    "countMobility r c (boardSize s) g1 = Inr own"
    "grid_restore g1 r c (Some v) = Inr (visited s)"
    by blast
  have rest: "\<forall>(r, c)\<in>set ms. \<exists>v. grid_get (visited s) r c = Inr (Some v)"
    using Cons.prems(2) by simp
  have plain: "\<exists>best' s'. aggressor_loop opps ms s b bs = Inr (best', s') \<and> s' = s\<lparr>rng := rng s'\<rparr>" for b bs
    by (rule Cons.IH [OF Cons.prems(1) rest])
  have flipped: "\<exists>best' s'. aggressor_loop opps ms (snd (coin s)) b bs = Inr (best', s') \<and> s' = s\<lparr>rng := rng s'\<rparr>" for b bs
  proof -
    have "\<exists>best' s'. aggressor_loop opps ms (snd (coin s)) b bs = Inr (best', s') \<and>
        s' = (snd (coin s))\<lparr>rng := rng s'\<rparr>"
      using Cons.prems(1) rest by (intro Cons.IH) (simp_all add: coin_frame(2,3))
    then obtain best' s' where "aggressor_loop opps ms (snd (coin s)) b bs = Inr (best', s')"
      "s' = (snd (coin s))\<lparr>rng := rng s'\<rparr>" by blast
    moreover from this(2) have "s' = s\<lparr>rng := rng s'\<rparr>"
      by (subst (asm) coin_frame(1)) simp
    ultimately show ?thesis by blast
  qed
  have same: "s\<lparr>visited := visited s\<rparr> = s" by simp
  show ?case
    unfolding m aggressor_loop.simps get st sum.case prod.case Let_def same
    using plain flipped by (simp split: if_splits)
qed

lemma balanced_loop_frame:
  "boardSize s \<le> int (length (visited s)) \<Longrightarrow>
   (\<forall>(r, c)\<in>set ms. \<exists>v. grid_get (visited s) r c = Inr (Some v)) \<Longrightarrow>
   \<exists>best' s'. balanced_loop fscore fgt tot occ opps ms s best bestScore = Inr (best', s') \<and>
      s' = s\<lparr>rng := rng s'\<rparr>"
proof (induction ms arbitrary: s best bestScore)
  case Nil
  show ?case by simp
next
  case (Cons m ms)
  obtain r c where m: "m = (r, c)" by (cases m)
  with Cons.prems(2) obtain v where get: "grid_get (visited s) r c = Inr (Some v)" by auto
  from candidate_step [OF Cons.prems(1) get, of opps] obtain g1 befores own where
    st: "grid_set (visited s) r c 1 = Inr g1"
    "opponent_mobilities opps (boardSize s) g1 = Inr befores"
    "countMobility r c (boardSize s) g1 = Inr own"
    "grid_restore g1 r c (Some v) = Inr (visited s)"
    by blast
  let ?s1 = "s\<lparr>rng := snd (rng_call (rng s))\<rparr>"
  have next_state: "s\<lparr>visited := visited s, rng := snd (rng_call (rng s))\<rparr> = ?s1" by simp
  have step: "\<exists>best' s'. balanced_loop fscore fgt tot occ opps ms ?s1 b bs = Inr (best', s') \<and>
      s' = s\<lparr>rng := rng s'\<rparr>" for b bs
  proof -
    have "\<exists>best' s'. balanced_loop fscore fgt tot occ opps ms ?s1 b bs = Inr (best', s') \<and>
        s' = ?s1\<lparr>rng := rng s'\<rparr>"
      using Cons.prems by (intro Cons.IH) simp_all
    then show ?thesis by simp
  qed
  show ?case
    unfolding m balanced_loop.simps get st sum.case prod.case Let_def next_state
    using step by (simp split: if_splits)
qed

lemma legal_scan_cells:
  "legal_scan ds r c sz g = Inr ms \<Longrightarrow> \<forall>(r', c')\<in>set ms. grid_get g r' c' = Inr (Some EMPTY)"
proof (induction ds arbitrary: ms)
  case Nil
  then show ?case by simp
next
  case (Cons d ds)
  obtain dr dc where d: "d = (dr, dc)" by (cases d)
  show ?case
  proof (cases "inBounds (r + dr) (c + dc) sz")
    case False
    with Cons d show ?thesis by (simp add: Let_def)
  next
    case True
    with Cons.prems d obtain v ms' where
      "grid_get g (r + dr) (c + dc) = Inr v" "legal_scan ds r c sz g = Inr ms'"
      "ms = (if v = Some EMPTY then (r + dr, c + dc) # ms' else ms')"
      by (auto simp: Let_def split: sum.splits)
    with Cons.IH [of ms'] show ?thesis
      by (auto split: if_splits)
  qed
qed

lemma legal_moves_are_cells:
  "getLegalMoves r c sz g = Inr ms \<Longrightarrow> \<forall>(r', c')\<in>set ms. \<exists>v. grid_get g r' c' = Inr (Some v)"
  unfolding getLegalMoves_def using legal_scan_cells by fast

section \<open>Claim about the strategies\<close>

text \<open>
  Claim C9.  Let the grid of the state have at least \<open>boardSize\<close> rows and let every
  candidate be a cell of the grid, as every legal move is.  Then each built-in strategy
  (mobility, aggressor, balanced with any floating-point arithmetic) returns, and when it
  has returned, \<open>visited\<close> is what it was at call entry; the state differs from the one at
  entry in the generator's variable only.
\<close>

theorem C9_strategies_restore_grid:
  assumes "boardSize s \<le> int (length (visited s))"
    and "\<forall>(r, c)\<in>set moves. \<exists>v. grid_get (visited s) r c = Inr (Some v)"
  shows "(\<exists>ch s'. mobility s player moves = Inr (ch, s') \<and>
            visited s' = visited s \<and> s' = s\<lparr>rng := rng s'\<rparr>) \<and>
         (\<exists>ch s'. aggressor s player moves = Inr (ch, s') \<and>
            visited s' = visited s \<and> s' = s\<lparr>rng := rng s'\<rparr>) \<and>
         (\<exists>ch s'. balanced fscore fgt s player moves = Inr (ch, s') \<and>
            visited s' = visited s \<and> s' = s\<lparr>rng := rng s'\<rparr>)"
proof -
  have vis: "visited s' = visited s" if "s' = s\<lparr>rng := rng s'\<rparr>" for s'
    by (subst that) simp
  from mobility_loop_frame [OF assms, of None "- 1"] obtain b1 s1 where
    l1: "mobility_loop moves s None (- 1) = Inr (b1, s1)" "s1 = s\<lparr>rng := rng s1\<rparr>"
    by blast
  then have m: "\<exists>ch s'. mobility s player moves = Inr (ch, s') \<and>
            visited s' = visited s \<and> s' = s\<lparr>rng := rng s'\<rparr>"
    using vis [of s1] by (simp add: mobility_def)
  from aggressor_loop_frame [OF assms, of "getOpponents s (pid player)" None None] obtain b2 s2 where
    l2: "aggressor_loop (getOpponents s (pid player)) moves s None None = Inr (b2, s2)"
      "s2 = s\<lparr>rng := rng s2\<rparr>"
    by blast
  then have a: "\<exists>ch s'. aggressor s player moves = Inr (ch, s') \<and>
            visited s' = visited s \<and> s' = s\<lparr>rng := rng s'\<rparr>"
    using vis [of s2] m by (simp add: aggressor_def Let_def)
  from balanced_loop_frame [OF assms, of fscore fgt "boardSize s * boardSize s"
      "int (length (filter (\<lambda>v. v \<noteq> 0) (concat (visited s))))" "getOpponents s (pid player)" None None]
  obtain b3 s3 where
    l3: "balanced_loop fscore fgt (boardSize s * boardSize s)
          (int (length (filter (\<lambda>v. v \<noteq> 0) (concat (visited s)))))
          (getOpponents s (pid player)) moves s None None = Inr (b3, s3)"
      "s3 = s\<lparr>rng := rng s3\<rparr>"
    by blast
  then have b: "\<exists>ch s'. balanced fscore fgt s player moves = Inr (ch, s') \<and>
            visited s' = visited s \<and> s' = s\<lparr>rng := rng s'\<rparr>"
    using vis [of s3] by (simp add: balanced_def Let_def)
  from m a b show ?thesis by (intro conjI)
qed

lemma getLegal_A1: "getLegalMoves 6 6 8 gridA = Inr [(4, 5), (4, 7), (5, 4), (7, 4)]"
  by (simp add: legal_eval gridA_def)

theorem C9_witness:
  "boardSize stateA \<le> int (length (visited stateA)) \<and>
   getLegalMoves (row playerA1) (col playerA1) (boardSize stateA) (visited stateA) =
     Inr [(4, 5), (4, 7), (5, 4), (7, 4)] \<and>
   (\<exists>ch s'. mobility stateA playerA1 [(4, 5), (4, 7), (5, 4), (7, 4)] = Inr (ch, s') \<and>
      visited s' = gridA) \<and>
   (\<exists>ch s'. aggressor stateA playerA1 [(4, 5), (4, 7), (5, 4), (7, 4)] = Inr (ch, s') \<and>
      visited s' = gridA) \<and>
   (\<exists>ch s'. balanced balanced_score score_gt stateA playerA1 [(4, 5), (4, 7), (5, 4), (7, 4)] =
      Inr (ch, s') \<and> visited s' = gridA)"
proof -
  have a: "boardSize stateA \<le> int (length (visited stateA))"
    by (simp add: stateA_simps)
  have l: "getLegalMoves (row playerA1) (col playerA1) (boardSize stateA) (visited stateA) =
     Inr [(4, 5), (4, 7), (5, 4), (7, 4)]"
    using getLegal_A1 by (simp add: stateA_def playerA1_def)
  have v: "visited stateA = gridA"
    by (simp add: stateA_def)
  from legal_moves_are_cells [OF l]
  have c: "\<forall>(r, c)\<in>set [(4, 5), (4, 7), (5, 4), (7, 4)]. \<exists>v. grid_get (visited stateA) r c = Inr (Some v)" .
  from C9_strategies_restore_grid [OF a c, of playerA1 balanced_score score_gt] a l
  show ?thesis
    unfolding v by blast
qed

section \<open>Runs that make progress\<close>

subsection \<open>A round that fills the grid ends the game\<close>

lemma empty_cell_counts:
  assumes "grid_get g r c = Inr (Some EMPTY)"
  shows "0 < empties g"
proof -
  from assms have "nat r < length g" "nat c < length (g ! nat r)" "g ! nat r ! nat c = EMPTY"
    by (simp_all add: grid_get_Some)
  then have "EMPTY \<in> set (concat g)"
    by (metis concat_map_singleton in_set_conv_nth set_concat UN_I)
  then show ?thesis
    by (auto simp: empties_def filter_empty_conv)
qed

lemma full_grid_eliminates:
  assumes "eliminate_step sz g p = Inr (p', ev)" "empties g = 0"
  shows "status p' \<noteq> ALIVE"
proof (cases "status p = ALIVE")
  case False
  with assms(1) show ?thesis by (simp add: eliminate_step_def)
next
  case True
  with assms(1) obtain ms where ms: "getLegalMoves (row p) (col p) sz g = Inr ms"
    by (auto simp: eliminate_step_def split: sum.splits)
  have "ms = []"
  proof (rule ccontr)
    assume "ms \<noteq> []"
    then obtain r c where "(r, c) \<in> set ms" by (cases ms) auto
    with legal_scan_cells [OF ms [unfolded getLegalMoves_def]]
    have "grid_get g r c = Inr (Some EMPTY)" by auto
    from empty_cell_counts [OF this] assms(2) show False by simp
  qed
  with assms(1) True ms show ?thesis
    by (auto simp: eliminate_step_def)
qed

lemma full_grid_eliminates_all:
  "eliminate_loop sz g ps = Inr (ps', evs) \<Longrightarrow> empties g = 0 \<Longrightarrow>
   filter (\<lambda>p. status p = ALIVE) ps' = []"
proof (induction ps arbitrary: ps' evs)
  case Nil
  then show ?case by simp
next
  case (Cons p ps)
  from Cons.prems(1) obtain p' ev qs evs' where
    st: "eliminate_step sz g p = Inr (p', ev)" and lp: "eliminate_loop sz g ps = Inr (qs, evs')"
    and eq: "ps' = p' # qs"
    by (auto split: sum.splits)
  from Cons.IH [OF lp Cons.prems(2)] full_grid_eliminates [OF st Cons.prems(2)] show ?case
    by (simp add: eq)
qed

lemma round_fills_gameover:
  assumes "play_round s = Inr (s', evs)" "empties (visited s') = 0"
  shows "phase s' = GAMEOVER"
proof -
  from assms(1) obtain s1 ev1 ev2 where
    e: "evaluateState s1 = Inr (s', ev2)"
    by (auto simp: play_round_def split: sum.splits)
  from evaluateState_frame(3) [OF e] assms(2) have full: "empties (visited s1) = 0"
    by simp
  from e obtain ps1 evs1 where
    lp: "eliminate_loop (boardSize s1) (visited s1) (players s1) = Inr (ps1, evs1)"
    by (auto simp: evaluateState_def Let_def split: sum.splits)
  from full_grid_eliminates_all [OF lp full] e lp show ?thesis
    by (auto simp: evaluateState_def Let_def split: if_splits)
qed

lemma progress_reaches_gameover:
  "run_rounds s subss = Inr tr \<Longrightarrow> progress s tr \<Longrightarrow> phase s \<noteq> GAMEOVER \<Longrightarrow>
   empties (visited s) \<le> n \<Longrightarrow> 1 \<le> n \<Longrightarrow> n \<le> length tr \<Longrightarrow>
   \<exists>(s', evs)\<in>set (take n tr). phase s' = GAMEOVER"
proof (induction subss arbitrary: s tr n)
  case Nil
  then show ?case by simp
next
  case (Cons subs rest)
  from Cons.prems(1) obtain s1 evs1 tr' where
    pr: "play_round (submit_all s subs) = Inr (s1, evs1)" and
    rr: "run_rounds s1 rest = Inr tr'" and tr: "tr = (s1, evs1) # tr'"
    by (auto split: sum.splits)
  from Cons.prems(2,3) tr have mv: "0 < moves_in evs1" and pg: "progress s1 tr'"
    by simp_all
  from play_round_empties [OF pr] have em: "empties (visited s1) + moves_in evs1 = empties (visited s)"
    by (simp add: submit_all_frame)
  obtain m where n: "n = Suc m" using Cons.prems(5) by (cases n) simp_all
  show ?case
  proof (cases "phase s1 = GAMEOVER")
    case True
    then show ?thesis by (simp add: tr n)
  next
    case False
    from em mv Cons.prems(4) n have le: "empties (visited s1) \<le> m" by simp
    have "1 \<le> m"
    proof (rule ccontr)
      assume "\<not> 1 \<le> m"
      with le have "empties (visited s1) = 0" by simp
      from round_fills_gameover [OF pr this] False show False by simp
    qed
    moreover from Cons.prems(6) tr n have "m \<le> length tr'" by simp
    ultimately have "\<exists>(s', evs)\<in>set (take m tr'). phase s' = GAMEOVER"
      using rr pg False le by (intro Cons.IH)
    then show ?thesis by (auto simp: tr n)
  qed
qed

lemma first_gameover_index:
  "x \<in> set (take n xs) \<Longrightarrow> \<not> P x \<Longrightarrow> length (takeWhile P xs) < n"
proof (induction xs arbitrary: n)
  case Nil
  then show ?case by simp
next
  case (Cons y ys)
  then obtain m where n: "n = Suc m" by (cases n) simp_all
  from Cons show ?case by (auto simp: n)
qed

lemma initState_ruleset:
  "initState bs sd pc cc ro = Inr s \<Longrightarrow> ruleset s = merge_rules ro"
  by (auto simp: initState_def Let_def split: sum.splits)

lemma round4_K:
  "play_round stateG = Inr (stateW\<lparr>history := historyC @ [(3, [])], turn := 4\<rparr>, [Winner 0])"
proof -
  have "resolveTurn stateG =
      Inr (stateG\<lparr>history := historyC @ [(3, [])], turn := 4, phase := EVAL\<rparr>, [])"
    by (simp add: resolveTurn_def Let_def resolve_step_def stateK_simps stateC_def stateG_def)
  moreover have "evaluateState (stateG\<lparr>history := historyC @ [(3, [])], turn := 4, phase := EVAL\<rparr>) =
      Inr (stateW\<lparr>history := historyC @ [(3, [])], turn := 4\<rparr>, [Winner 0])"
    by (simp add: evaluate_eval stateK_simps stateC_def stateG_def stateW_def)
  ultimately show ?thesis
    by (simp add: play_round_def)
qed

lemma idle_round_W:
  "play_round (stateW\<lparr>history := h, turn := t\<rparr>) =
   Inr (stateW\<lparr>history := h @ [(t, [])], turn := t + 1\<rparr>, [Winner 0])"
proof -
  have "resolveTurn (stateW\<lparr>history := h, turn := t\<rparr>) =
      Inr (stateW\<lparr>history := h @ [(t, [])], turn := t + 1, phase := EVAL\<rparr>, [])"
    by (simp add: resolveTurn_def Let_def resolve_step_def stateK_simps stateC_def stateG_def stateW_def)
  moreover have "evaluateState (stateW\<lparr>history := h @ [(t, [])], turn := t + 1, phase := EVAL\<rparr>) =
      Inr (stateW\<lparr>history := h @ [(t, [])], turn := t + 1\<rparr>, [Winner 0])"
    by (simp add: evaluate_eval stateK_simps stateC_def stateG_def stateW_def)
  ultimately show ?thesis
    by (simp add: play_round_def)
qed

lemma idle_rounds_W:
  "\<exists>tr. run_rounds (stateW\<lparr>history := h, turn := t\<rparr>) (replicate n []) = Inr tr \<and>
        length tr = n \<and> progress (stateW\<lparr>history := h, turn := t\<rparr>) tr"
proof (induction n arbitrary: h t)
  case 0
  show ?case by simp
next
  case (Suc n)
  let ?s1 = "stateW\<lparr>history := h @ [(t, [])], turn := t + 1\<rparr>"
  from Suc [where h="h @ [(t, [])]" and t="t + 1"] obtain tr where
    rr: "run_rounds ?s1 (replicate n []) = Inr tr" and
    ln: "length tr = n" and pg: "progress ?s1 tr"
    by blast
  have "run_rounds (stateW\<lparr>history := h, turn := t\<rparr>) (replicate (Suc n) []) =
      Inr ((?s1, [Winner 0]) # tr)"
    by (simp add: idle_round_W rr)
  moreover have "progress (stateW\<lparr>history := h, turn := t\<rparr>) ((?s1, [Winner 0]) # tr)"
    using pg by (simp add: stateW_def stateG_def)
  ultimately show ?case
    using ln by auto
qed

lemma game_K:
  "\<exists>tr. run_rounds stateK ([[(0, 1, 2), (1, 1, 0)], [(0, 2, 0), (1, 0, 2)], [(0, 0, 1)]] @
                            replicate 6 []) =
          Inr ([(stateK1, [Move 0 (0, 0) (1, 2), Move 1 (2, 2) (1, 0)]),
                (stateK2, [Move 0 (1, 2) (2, 0), Move 1 (1, 0) (0, 2)]),
                (stateG, [Move 0 (2, 0) (0, 1), Elimination 0 4, Winner 1])] @ tr) \<and>
        length tr = 6 \<and> progress stateG tr"
proof -
  let ?s4 = "stateW\<lparr>history := historyC @ [(3, [])], turn := 4\<rparr>"
  from idle_rounds_W [where h="historyC @ [(3, [])]" and t=4 and n=5] obtain tr where
    rr: "run_rounds ?s4 (replicate 5 []) = Inr tr" and
    ln: "length tr = 5" and pg: "progress ?s4 tr"
    by blast
  have six: "replicate 6 [] = [] # replicate 5 ([] :: (int \<times> int \<times> int) list)"
    by (simp add: numeral_eq_Suc)
  have "run_rounds stateG (replicate 6 []) = Inr ((?s4, [Winner 0]) # tr)"
    unfolding six by (simp add: round4_K rr)
  then have "run_rounds stateK ([[(0, 1, 2), (1, 1, 0)], [(0, 2, 0), (1, 0, 2)], [(0, 0, 1)]] @
                            replicate 6 []) =
          Inr ([(stateK1, [Move 0 (0, 0) (1, 2), Move 1 (2, 2) (1, 0)]),
                (stateK2, [Move 0 (1, 2) (2, 0), Move 1 (1, 0) (0, 2)]),
                (stateG, [Move 0 (2, 0) (0, 1), Elimination 0 4, Winner 1])] @
               ((?s4, [Winner 0]) # tr))"
    by (simp add: round1_K round2_K round3_K del: submit_all.simps)
  moreover have "progress stateG ((?s4, [Winner 0]) # tr)"
    using pg by (simp add: stateG_def)
  ultimately show ?thesis
    using ln by (intro exI [of _ "(?s4, [Winner 0]) # tr"]) simp
qed

section \<open>Claim about termination\<close>

text \<open>
  Claim C8, as the code has it.  A run of rounds need not reach GAMEOVER: a round in which
  no move is executed (every living player passes, collides or is blocked) leaves the grid
  as it is.  What holds is this.  Take any initial configuration for which \<open>initState\<close>
  returns, any intents submitted before each round, and a run of \<open>resolveTurn\<close> /
  \<open>evaluateState\<close> rounds in which every round that starts outside GAMEOVER executes at
  least one move.  Let \<open>N\<close> be \<open>boardSize\<^sup>2\<close> minus the number of obstacles placed.  Then
  the run reaches phase GAMEOVER within \<open>max 1 N\<close> rounds: if it has that many rounds, one
  of the first \<open>max 1 N\<close> ends in GAMEOVER, and in any case fewer than \<open>max 1 N\<close> rounds come
  before the first round that ends in GAMEOVER.  The reason is the claim's: every executed
  move takes one EMPTY cell and nothing frees a cell, so the executed moves number at most
  \<open>N\<close>, and a round that leaves no EMPTY cell eliminates every living player.
\<close>

theorem C8_progress_reaches_gameover:
  assumes "initState bs sd pc cc ro = Inr s0" and "run_rounds s0 subss = Inr tr"
    and "progress s0 tr"
  shows "(max 1 (nat bs * nat bs - length (obstacles s0)) \<le> length tr \<longrightarrow>
            (\<exists>(s, evs)\<in>set (take (max 1 (nat bs * nat bs - length (obstacles s0))) tr).
               phase s = GAMEOVER)) \<and>
         length (takeWhile (\<lambda>(s, evs). phase s \<noteq> GAMEOVER) tr) <
           max 1 (nat bs * nat bs - length (obstacles s0)) \<and>
         sum_list (map (\<lambda>(s, evs). moves_in evs) tr) + length (obstacles s0) \<le> nat bs * nat bs"
proof -
  let ?n = "max 1 (nat bs * nat bs - length (obstacles s0))"
  from assms(1) have ph: "phase s0 \<noteq> GAMEOVER"
    by (rule initState_Inr) simp
  from initState_empties [OF assms(1)] have em: "empties (visited s0) \<le> ?n"
    by simp
  have a: "\<exists>(s, evs)\<in>set (take ?n tr). phase s = GAMEOVER" if "?n \<le> length tr"
    using assms(2,3) ph em _ that by (rule progress_reaches_gameover) simp
  have b: "length (takeWhile (\<lambda>(s, evs). phase s \<noteq> GAMEOVER) tr) < ?n"
  proof (cases "?n \<le> length tr")
    case True
    from a [OF this] obtain x where "x \<in> set (take ?n tr)" "\<not> (\<lambda>(s, evs). phase s \<noteq> GAMEOVER) x"
      by auto
    then show ?thesis by (rule first_gameover_index)
  next
    case False
    have "length (takeWhile (\<lambda>(s, evs). phase s \<noteq> GAMEOVER) tr) \<le> length tr"
      by (rule length_takeWhile_le)
    with False show ?thesis by linarith
  qed
  from run_rounds_empties [OF assms(2)] initState_empties [OF assms(1)]
  have c: "sum_list (map (\<lambda>(s, evs). moves_in evs) tr) + length (obstacles s0) \<le> nat bs * nat bs"
    by simp
  from a b c show ?thesis by blast
qed

theorem C8_witness:
  "initState 3 42 2 0 rulesA = Inr stateK \<and>
   (\<exists>tr. run_rounds stateK ([[(0, 1, 2), (1, 1, 0)], [(0, 2, 0), (1, 0, 2)], [(0, 0, 1)]] @
                            replicate 6 []) = Inr tr \<and>
         progress stateK tr \<and>
         max 1 (nat 3 * nat 3 - length (obstacles stateK)) = 9 \<and> length tr = 9 \<and>
         (\<exists>(s, evs)\<in>set (take 9 tr). phase s = GAMEOVER) \<and>
         length (takeWhile (\<lambda>(s, evs). phase s \<noteq> GAMEOVER) tr) = 2 \<and>
         sum_list (map (\<lambda>(s, evs). moves_in evs) tr) + length (obstacles stateK) \<le> nat 3 * nat 3)"
proof -
  from game_K obtain tl where
    rr: "run_rounds stateK ([[(0, 1, 2), (1, 1, 0)], [(0, 2, 0), (1, 0, 2)], [(0, 0, 1)]] @
                            replicate 6 []) =
          Inr ([(stateK1, [Move 0 (0, 0) (1, 2), Move 1 (2, 2) (1, 0)]),
                (stateK2, [Move 0 (1, 2) (2, 0), Move 1 (1, 0) (0, 2)]),
                (stateG, [Move 0 (2, 0) (0, 1), Elimination 0 4, Winner 1])] @ tl)" and
    ln: "length tl = 6" and pg: "progress stateG tl"
    by blast
  let ?tr = "[(stateK1, [Move 0 (0, 0) (1, 2), Move 1 (2, 2) (1, 0)]),
              (stateK2, [Move 0 (1, 2) (2, 0), Move 1 (1, 0) (0, 2)]),
              (stateG, [Move 0 (2, 0) (0, 1), Elimination 0 4, Winner 1])] @ tl"
  have p: "progress stateK ?tr"
    using pg by (simp add: moves_in_def stateK_def stateK1_def stateK2_def)
  have n: "max 1 (nat 3 * nat 3 - length (obstacles stateK)) = 9"
    by (simp add: stateK_def)
  have l: "length ?tr = 9"
    using ln by simp
  have t: "length (takeWhile (\<lambda>(s, evs). phase s \<noteq> GAMEOVER) ?tr) = 2"
    by (simp add: stateK_def stateK1_def stateK2_def stateC_def stateG_def)
  note c8 = C8_progress_reaches_gameover [OF initState_K rr p]
  from c8 n l have "\<exists>(s, evs)\<in>set (take 9 ?tr). phase s = GAMEOVER"
    by simp
  moreover from c8 have "sum_list (map (\<lambda>(s, evs). moves_in evs) ?tr) + length (obstacles stateK)
      \<le> nat 3 * nat 3"
    by blast
  ultimately show ?thesis
    using initState_K rr p n l t by blast
qed

text \<open>
  The claim as stated fails in two ways.  Scenario A has an 8x8 board and no obstacles, so
  the claimed bound is 64 rounds; when nobody submits an intent, 65 rounds run and the phase
  after each of them is SELECT.  And the bound has to count the obstacles placed, not
  \<open>obstacleCount\<close>: with 100 obstacles asked for on the 8x8 board \<open>initState\<close> returns a
  state in phase SELECT with fewer than 100 obstacles placed, while
  \<open>boardSize\<^sup>2 - obstacleCount\<close> is -36.
\<close>

theorem C8_counterexample:
  "initState 8 42 2 0 rulesA = Inr stateA \<and>
   boardSize stateA * boardSize stateA - obstacleCount (ruleset stateA) = 64 \<and>
   (case run_rounds stateA (replicate 65 []) of
      Inl e \<Rightarrow> []
    | Inr tr \<Rightarrow> map (\<lambda>(s, evs). phase s) tr) = replicate 65 SELECT \<and>
   (case initState 8 42 2 0 rules100 of
      Inl e \<Rightarrow> False
    | Inr s0 \<Rightarrow> phase s0 = SELECT \<and>
               boardSize s0 * boardSize s0 - obstacleCount (ruleset s0) = - 36 \<and>
               int (length (obstacles s0)) < obstacleCount (ruleset s0))"
proof -
  from idle_rounds_A [where h="[]" and t=0 and n=65] obtain tr where
    "run_rounds stateA (replicate 65 []) = Inr tr" "map (\<lambda>(s, evs). phase s) tr = replicate 65 SELECT"
    unfolding stateA_fields by blast
  then have "(case run_rounds stateA (replicate 65 []) of
      Inl e \<Rightarrow> []
    | Inr tr \<Rightarrow> map (\<lambda>(s, evs). phase s) tr) = replicate 65 SELECT"
    by simp
  moreover have "boardSize stateA * boardSize stateA - obstacleCount (ruleset stateA) = 64"
    by (simp add: stateA_def)
  moreover have "(case initState 8 42 2 0 rules100 of
      Inl e \<Rightarrow> False
    | Inr s0 \<Rightarrow> phase s0 = SELECT \<and>
               boardSize s0 * boardSize s0 - obstacleCount (ruleset s0) = - 36 \<and>
               int (length (obstacles s0)) < obstacleCount (ruleset s0))"
  proof -
    have "\<exists>s. initState 8 42 2 0 rules100 = Inr s"
      by (rule initState_total) simp_all
    then obtain s0 where s0: "initState 8 42 2 0 rules100 = Inr s0" ..
    from s0 have "phase s0 = SELECT" "boardSize s0 = 8"
      by (auto elim: initState_Inr)
    moreover from initState_ruleset [OF s0] have "obstacleCount (ruleset s0) = 100"
      by (simp add: merge_rules_def rules100_def)
    moreover from initState_empties [OF s0] have "length (obstacles s0) \<le> 64"
      by simp
    ultimately show ?thesis
      by (simp add: s0)
  qed
  ultimately show ?thesis
    using initState_A by simp
qed

section \<open>The engine raises nothing but TypeError\<close>

text \<open>
  The outcome \<open>ArrayExtended\<close> of the array model never arises in the three transitions or
  in \<open>initState\<close>: they write only cells that exist.
\<close>

lemma resolve_step_error: "resolve_step I D p g = Inl e \<Longrightarrow> e = TypeError"
proof -
  assume a: "resolve_step I D p g = Inl e"
  have "grid_set g nr nc BLOCKED \<noteq> Inl e'" if "grid_get g nr nc = Inr (Some EMPTY)" for nr nc e'
    using grid_set_on_cell [OF that, of BLOCKED] by simp
  with a show ?thesis
    by (auto simp: resolve_step_def grid_get_Inl split: if_splits option.splits sum.splits)
qed

lemma resolve_loop_error: "resolve_loop I D ps g = Inl e \<Longrightarrow> e = TypeError"
  by (induction ps arbitrary: g) (auto split: sum.splits dest: resolve_step_error)

lemma resolveTurn_error: "resolveTurn s = Inl e \<Longrightarrow> e = TypeError"
  by (auto simp: resolveTurn_def Let_def split: sum.splits dest: resolve_loop_error)

lemma legal_scan_error: "legal_scan ds r c sz g = Inl e \<Longrightarrow> e = TypeError"
proof (induction ds)
  case Nil
  then show ?case by simp
next
  case (Cons d ds)
  obtain dr dc where "d = (dr, dc)" by (cases d)
  with Cons show ?case
    by (auto simp: Let_def grid_get_Inl split: if_splits sum.splits)
qed

lemma eliminate_loop_error: "eliminate_loop sz g ps = Inl e \<Longrightarrow> e = TypeError"
  by (induction ps)
    (auto simp: eliminate_step_def getLegalMoves_def split: sum.splits if_splits dest: legal_scan_error)

lemma evaluateState_error: "evaluateState s = Inl e \<Longrightarrow> e = TypeError"
  by (auto simp: evaluateState_def Let_def split: sum.splits if_splits dest: eliminate_loop_error)

lemma init_players_error: "init_players pc hc starts i = Inl e \<Longrightarrow> e = TypeError"
proof (induction pc hc starts i rule: init_players.induct)
  case (1 pc hc starts i)
  show ?case
  proof (cases "i < pc")
    case False
    with "1.prems" show ?thesis by (simp add: init_players.simps [of pc hc starts i])
  next
    case True
    show ?thesis
    proof (cases "js_index starts i")
      case None
      with True "1.prems" show ?thesis by (simp add: init_players.simps [of pc hc starts i])
    next
      case (Some x)
      obtain r c where x: "x = (r, c)" by (cases x)
      from "1.prems" True Some x have "init_players pc hc starts (i + 1) = Inl e"
        by (subst (asm) init_players.simps) (simp split: sum.splits)
      with "1.IH" [OF True Some [unfolded x]] show ?thesis
        by simp
    qed
  qed
qed

lemma mark_cells_Nil_error: "mark_cells [] cs v = Inl e \<Longrightarrow> e = TypeError"
proof (cases cs)
  case Nil
  assume "mark_cells [] cs v = Inl e"
  with Nil show ?thesis by simp
next
  case (Cons x xs)
  assume a: "mark_cells [] cs v = Inl e"
  obtain r c where x: "x = (r, c)" by (cases x)
  have "grid_set [] r c v = Inl TypeError"
    by (simp add: grid_set_def js_index_def)
  with a Cons x show ?thesis by simp
qed

lemma initState_error:
  assumes "initState bs sd pc cc ro = Inl e"
  shows "e = TypeError"
proof -
  let ?starts = "defaultStartPositions pc bs"
  let ?obs = "fst (placeObstacles bs (makeRng sd) ?starts (obstacleCount (merge_rules ro)))"
  show ?thesis
  proof (cases "init_players pc (max 1 (pc - cc)) ?starts 0")
    case (Inl e')
    with assms init_players_error [OF Inl] show ?thesis
      by (simp add: initState_def Let_def)
  next
    case (Inr ps)
    show ?thesis
    proof (cases "1 \<le> bs")
      case False
      then have g: "makeGrid bs = []" by (simp add: makeGrid_def)
      show ?thesis
      proof (cases "mark_cells [] (map (\<lambda>p. (row p, col p)) ps) BLOCKED")
        case (Inl e')
        with assms Inr g mark_cells_Nil_error [OF Inl] show ?thesis
          by (simp add: initState_def Let_def)
      next
        case g1: (Inr g1)
        from mark_cells_Nil [OF g1] have "g1 = []" by simp
        with assms Inr g g1 have "mark_cells [] ?obs OBSTACLE = Inl e"
          by (simp add: initState_def Let_def split: sum.splits)
        then show ?thesis by (rule mark_cells_Nil_error)
      qed
    next
      case True
      have "\<forall>(r, c)\<in>set (map (\<lambda>p. (row p, col p)) ps). inBounds r c bs"
        using init_players_positions(2) [OF Inr] corners_inBounds [OF True] by blast
      then have "\<forall>(r, c)\<in>set (map (\<lambda>p. (row p, col p)) ps). \<exists>w. grid_get (makeGrid bs) r c = Inr (Some w)"
        by (auto simp: grid_get_makeGrid inBounds_def)
      from mark_cells_total [OF this] obtain g1 where
        g1: "mark_cells (makeGrid bs) (map (\<lambda>p. (row p, col p)) ps) BLOCKED = Inr g1"
        by blast
      have "\<exists>w. grid_get g1 r c = Inr (Some w)" if "inBounds r c bs" for r c
        using that mark_cells_get [OF g1] by (auto simp: grid_get_makeGrid inBounds_def)
      with placeObstacles_props(2) [OF True]
      have "\<forall>(r, c)\<in>set ?obs. \<exists>w. grid_get g1 r c = Inr (Some w)"
        by fast
      from mark_cells_total [OF this] obtain g2 where "mark_cells g1 ?obs OBSTACLE = Inr g2"
        by blast
      with assms Inr g1 show ?thesis
        by (simp add: initState_def Let_def)
    qed
  qed
qed

end
